theory Spec2Isabelle
  imports Main "HOL-Library.Word" "HOL-Library.Monad_Syntax"
begin

section \<open>Nodes in a store\<close>

text \<open>
  The source links nodes through raw pointers (\<open>Intrusive_list_node* m_prev, m_next\<close>)
  and every list operation rewires fields of nodes that live outside the list object.
  A pointer is a machine word of the platform's address width \<open>'a\<close>; the store maps the
  addresses of live node objects to their two link fields. Reading or writing through a
  pointer that addresses no live node is undefined behaviour in the source and is the
  result \<open>None\<close> here.
\<close>

type_synonym 'a ptr = "'a word"

definition nullptr :: "'a::len ptr" where
  "nullptr = 0"

record 'p node =
  m_prev :: 'p
  m_next :: 'p

type_synonym 'a store = "'a ptr \<rightharpoonup> 'a ptr node"

text \<open>\<open>p->m_prev\<close> and \<open>p->m_next\<close> as reads.\<close>

definition rd_prev :: "('a :: len) store \<Rightarrow> 'a ptr \<Rightarrow> 'a ptr option" where
  "rd_prev h p = map_option m_prev (h p)"

definition rd_next :: "('a :: len) store \<Rightarrow> 'a ptr \<Rightarrow> 'a ptr option" where
  "rd_next h p = map_option m_next (h p)"

text \<open>\<open>p->m_prev = v\<close> and \<open>p->m_next = v\<close> as writes.\<close>

definition wr_prev :: "('a :: len) store \<Rightarrow> 'a ptr \<Rightarrow> 'a ptr \<Rightarrow> 'a store option" where
  "wr_prev h p v = (case h p of None \<Rightarrow> None | Some n \<Rightarrow> Some (h(p \<mapsto> n\<lparr>m_prev := v\<rparr>)))"

definition wr_next :: "('a :: len) store \<Rightarrow> 'a ptr \<Rightarrow> 'a ptr \<Rightarrow> 'a store option" where
  "wr_next h p v = (case h p of None \<Rightarrow> None | Some n \<Rightarrow> Some (h(p \<mapsto> n\<lparr>m_next := v\<rparr>)))"

text \<open>\<open>Intrusive_list_node()\<close>: a node constructed at address \<open>p\<close>, both links null.\<close>

definition Intrusive_list_node :: "('a :: len) store \<Rightarrow> 'a ptr \<Rightarrow> 'a store" where
  "Intrusive_list_node h p = h(p \<mapsto> \<lparr>m_prev = nullptr, m_next = nullptr\<rparr>)"

section \<open>The list\<close>

text \<open>
  A list object is its one data member, the sentinel node; the list is identified by the
  address \<open>s\<close> of that sentinel (\<open>&m_sentinel\<close>). Every member function takes the
  store and \<open>s\<close> and returns the new store.
\<close>

text \<open>\<open>Intrusive_list()\<close>: the sentinel is default-constructed, then linked to itself.\<close>

definition Intrusive_list :: "('a :: len) store \<Rightarrow> 'a ptr \<Rightarrow> 'a store option" where
  "Intrusive_list h s = do {
     h1 \<leftarrow> wr_prev (Intrusive_list_node h s) s s;
     wr_next h1 s s
   }"

text \<open>
  \<open>Intrusive_list(Intrusive_list&& rhs)\<close>: the new list's sentinel is constructed at
  \<open>t\<close>; \<open>s\<close> is the address of the sentinel of \<open>rhs\<close>.
\<close>

definition Intrusive_list_move :: "('a :: len) store \<Rightarrow> 'a ptr \<Rightarrow> 'a ptr \<Rightarrow> 'a store option" where
  "Intrusive_list_move h t s = do {
     let h0 = Intrusive_list_node h t;
     rp \<leftarrow> rd_prev h0 s;
     h1 \<leftarrow> wr_prev h0 t rp;
     rn \<leftarrow> rd_next h1 s;
     h2 \<leftarrow> wr_next h1 t rn;
     h3 \<leftarrow> wr_prev h2 s s;
     wr_next h3 s s
   }"

definition begin_il :: "('a :: len) store \<Rightarrow> 'a ptr \<Rightarrow> 'a ptr option" where
  "begin_il h s = rd_next h s"

definition end_il :: "('a :: len) ptr \<Rightarrow> 'a ptr" where
  "end_il s = s"

definition empty_il :: "('a :: len) store \<Rightarrow> 'a ptr \<Rightarrow> bool option" where
  "empty_il h s = do { n \<leftarrow> rd_next h s; Some (n = s) }"

text \<open>
  \<open>size()\<close>: the counter is a \<open>size_t\<close>, a word of the address width, and wraps. The
  loop follows \<open>m_next\<close> until it meets the sentinel; on a store where it never does,
  the function has no result.
\<close>

partial_function (option) size_loop ::
  "('a :: len) store \<Rightarrow> 'a ptr \<Rightarrow> 'a ptr \<Rightarrow> 'a word \<Rightarrow> 'a word option" where
  "size_loop h s n count =
     (if n \<noteq> s then do { n' \<leftarrow> rd_next h n; size_loop h s n' (count + 1) }
      else Some count)"

declare size_loop.simps [code]

definition size_il :: "('a :: len) store \<Rightarrow> 'a ptr \<Rightarrow> 'a word option" where
  "size_il h s = do { n \<leftarrow> rd_next h s; size_loop h s n 0 }"

definition push_front :: "('a :: len) store \<Rightarrow> 'a ptr \<Rightarrow> 'a ptr \<Rightarrow> 'a store option" where
  "push_front h s node = do {
     sn \<leftarrow> rd_next h s;
     h1 \<leftarrow> wr_prev h sn node;
     sn1 \<leftarrow> rd_next h1 s;
     h2 \<leftarrow> wr_next h1 node sn1;
     h3 \<leftarrow> wr_prev h2 node s;
     wr_next h3 s node
   }"

definition push_back :: "('a :: len) store \<Rightarrow> 'a ptr \<Rightarrow> 'a ptr \<Rightarrow> 'a store option" where
  "push_back h s node = do {
     sp \<leftarrow> rd_prev h s;
     h1 \<leftarrow> wr_next h sp node;
     sp1 \<leftarrow> rd_prev h1 s;
     h2 \<leftarrow> wr_prev h1 node sp1;
     h3 \<leftarrow> wr_next h2 node s;
     wr_prev h3 s node
   }"

definition pop_front :: "('a :: len) store \<Rightarrow> 'a ptr \<Rightarrow> 'a store option" where
  "pop_front h s = do {
     sn \<leftarrow> rd_next h s;
     snn \<leftarrow> rd_next h sn;
     h1 \<leftarrow> wr_next h s snn;
     sn1 \<leftarrow> rd_next h1 s;
     wr_prev h1 sn1 s
   }"

definition pop_back :: "('a :: len) store \<Rightarrow> 'a ptr \<Rightarrow> 'a store option" where
  "pop_back h s = do {
     sp \<leftarrow> rd_prev h s;
     spp \<leftarrow> rd_prev h sp;
     h1 \<leftarrow> wr_prev h s spp;
     sp1 \<leftarrow> rd_prev h1 s;
     wr_next h1 sp1 s
   }"

definition is_node_adj :: "('a :: len) store \<Rightarrow> 'a ptr \<Rightarrow> 'a ptr \<Rightarrow> bool option" where
  "is_node_adj h a b = do {
     an \<leftarrow> rd_next h a;
     if an = b then Some True else do {
       ap \<leftarrow> rd_prev h a;
       if ap = b then Some True else do {
         bn \<leftarrow> rd_next h b;
         if bn = a then Some True else do {
           bp \<leftarrow> rd_prev h b;
           Some (bp = a)
         }
       }
     }
   }"

definition is_a_left_b :: "('a :: len) store \<Rightarrow> 'a ptr \<Rightarrow> 'a ptr \<Rightarrow> bool option" where
  "is_a_left_b h a b = do { an \<leftarrow> rd_next h a; Some (an = b) }"

definition is_a_right_b :: "('a :: len) store \<Rightarrow> 'a ptr \<Rightarrow> 'a ptr \<Rightarrow> bool option" where
  "is_a_right_b h a b = do { ap \<leftarrow> rd_prev h a; Some (ap = b) }"

text \<open>\<open>unlink(node)\<close> returns the former predecessor together with the new store.\<close>

definition unlink :: "('a :: len) store \<Rightarrow> 'a ptr \<Rightarrow> 'a ptr \<Rightarrow> ('a store \<times> 'a ptr) option" where
  "unlink h s node = do {
     n_prev \<leftarrow> rd_prev h node;
     n_next \<leftarrow> rd_next h node;
     h1 \<leftarrow> wr_next h n_prev n_next;
     h2 \<leftarrow> wr_prev h1 n_next n_prev;
     h3 \<leftarrow> wr_next h2 node s;
     h4 \<leftarrow> wr_prev h3 node s;
     Some (h4, n_prev)
   }"

partial_function (option) erase_loop ::
  "('a :: len) store \<Rightarrow> 'a ptr \<Rightarrow> 'a ptr \<Rightarrow> 'a ptr \<Rightarrow> ('a store \<times> bool) option" where
  "erase_loop h s cur node =
     (if cur \<noteq> s then
        (if cur = node then do { (h', _) \<leftarrow> unlink h s cur; Some (h', True) }
         else do { c \<leftarrow> rd_next h cur; erase_loop h s c node })
      else Some (h, False))"

declare erase_loop.simps [code]

definition erase :: "('a :: len) store \<Rightarrow> 'a ptr \<Rightarrow> 'a ptr \<Rightarrow> ('a store \<times> bool) option" where
  "erase h s node = do {
     e \<leftarrow> empty_il h s;
     if e then Some (h, False)
     else do { cur \<leftarrow> rd_next h s; erase_loop h s cur node }
   }"

definition swap_adjacent :: "('a :: len) store \<Rightarrow> 'a ptr \<Rightarrow> 'a ptr \<Rightarrow> 'a store option" where
  "swap_adjacent h lhs rhs = do {
     lhs_prev \<leftarrow> rd_prev h lhs;
     rhs_next \<leftarrow> rd_next h rhs;
     h1 \<leftarrow> wr_prev h lhs rhs;
     h2 \<leftarrow> wr_next h1 lhs rhs_next;
     h3 \<leftarrow> wr_prev h2 rhs lhs_prev;
     h4 \<leftarrow> wr_next h3 rhs lhs;
     h5 \<leftarrow> wr_next h4 lhs_prev rhs;
     wr_prev h5 rhs_next lhs
   }"

definition swap_il :: "('a :: len) store \<Rightarrow> 'a ptr \<Rightarrow> 'a ptr \<Rightarrow> 'a store option" where
  "swap_il h a b =
     (if a = b then Some h
      else do {
        l \<leftarrow> is_a_left_b h a b;
        if l then swap_adjacent h a b
        else do {
          r \<leftarrow> is_a_right_b h a b;
          if r then swap_adjacent h b a
          else do {
            a_prev \<leftarrow> rd_prev h a;
            a_next \<leftarrow> rd_next h a;
            b_prev \<leftarrow> rd_prev h b;
            b_next \<leftarrow> rd_next h b;
            h1 \<leftarrow> wr_next h a_prev b;
            h2 \<leftarrow> wr_prev h1 a_next b;
            h3 \<leftarrow> wr_next h2 b_prev a;
            h4 \<leftarrow> wr_prev h3 b_next a;
            h5 \<leftarrow> wr_prev h4 b a_prev;
            h6 \<leftarrow> wr_next h5 b a_next;
            h7 \<leftarrow> wr_prev h6 a b_prev;
            wr_next h7 a b_next
          }
        }
      })"

text \<open>
  Iteration as a client writes it: \<open>for (it = begin(); it != end(); ++it)\<close>, collecting
  the addresses visited. \<open>operator++\<close> is \<open>m_ptr = m_ptr->next()\<close>.
\<close>

partial_function (option) iterate ::
  "('a :: len) store \<Rightarrow> 'a ptr \<Rightarrow> 'a ptr \<Rightarrow> 'a ptr list option" where
  "iterate h it e =
     (if it \<noteq> e then do { it' \<leftarrow> rd_next h it; r \<leftarrow> iterate h it' e; Some (it # r) }
      else Some [])"

declare iterate.simps [code]

definition order :: "('a :: len) store \<Rightarrow> 'a ptr \<Rightarrow> 'a ptr list option" where
  "order h s = do { b \<leftarrow> begin_il h s; iterate h b (end_il s) }"

section \<open>Rings\<close>

text \<open>
  \<open>chain h ps\<close>: each element of \<open>ps\<close> has the following one as \<open>m_next\<close>, which has
  it as \<open>m_prev\<close>. \<open>ring h s xs\<close>: the sentinel at \<open>s\<close> and the nodes \<open>xs\<close>, in this
  order, are distinct and closed into a cycle.
\<close>

fun chain :: "('a :: len) store \<Rightarrow> 'a ptr list \<Rightarrow> bool" where
  "chain h (a # b # r) = (rd_next h a = Some b \<and> rd_prev h b = Some a \<and> chain h (b # r))"
| "chain h [a] = True"
| "chain h [] = True"

definition ring :: "('a :: len) store \<Rightarrow> 'a ptr \<Rightarrow> 'a ptr list \<Rightarrow> bool" where
  "ring h s xs = (distinct (s # xs) \<and> chain h (s # xs @ [s]))"

section \<open>Vocabulary of the properties\<close>

text \<open>
  The store that a successful write leaves. \<open>wr_prev\<close> and \<open>wr_next\<close> return exactly
  these stores when \<open>p\<close> addresses a live node (lemmas \<open>wr_prev_dom\<close>, \<open>wr_next_dom\<close>).
\<close>

definition upd_prev :: "('a :: len) store \<Rightarrow> 'a ptr \<Rightarrow> 'a ptr \<Rightarrow> 'a store" where
  "upd_prev h p v = h(p \<mapsto> (the (h p))\<lparr>m_prev := v\<rparr>)"

definition upd_next :: "('a :: len) store \<Rightarrow> 'a ptr \<Rightarrow> 'a ptr \<Rightarrow> 'a store" where
  "upd_next h p v = h(p \<mapsto> (the (h p))\<lparr>m_next := v\<rparr>)"

text \<open>The order of a list after two of its members have exchanged places.\<close>

definition swap_list :: "'b \<Rightarrow> 'b \<Rightarrow> 'b list \<Rightarrow> 'b list" where
  "swap_list a b xs = map (\<lambda>x. if x = a then b else if x = b then a else x) xs"

text \<open>\<open>operator++\<close> applied \<open>k\<close> times to an iterator at \<open>it\<close>.\<close>

fun advance :: "('a :: len) store \<Rightarrow> nat \<Rightarrow> 'a ptr \<Rightarrow> 'a ptr option" where
  "advance h 0 it = Some it"
| "advance h (Suc k) it = do { it' \<leftarrow> rd_next h it; advance h k it' }"

text \<open>
  The mutating member functions as values, so that a sequence of calls can be run.
  \<open>pre\<close> is the stated precondition of one call on a list whose members are \<open>xs\<close>:
  a pushed node is a live node that is neither the sentinel nor already a member, a pop
  needs a member to remove, swapped nodes are members; \<open>erase\<close> has none. \<open>effect\<close>
  is what the call does to the order of the members.
\<close>

datatype 'p call = Push_front 'p | Push_back 'p | Pop_front | Pop_back
  | Erase 'p | Swap 'p 'p

fun do_call :: "('a :: len) store \<Rightarrow> 'a ptr \<Rightarrow> 'a ptr call \<Rightarrow> 'a store option" where
  "do_call h s (Push_front x) = push_front h s x"
| "do_call h s (Push_back x) = push_back h s x"
| "do_call h s Pop_front = pop_front h s"
| "do_call h s Pop_back = pop_back h s"
| "do_call h s (Erase x) = map_option fst (erase h s x)"
| "do_call h s (Swap a b) = swap_il h a b"

fun do_calls :: "('a :: len) store \<Rightarrow> 'a ptr \<Rightarrow> 'a ptr call list \<Rightarrow> 'a store option" where
  "do_calls h s [] = Some h"
| "do_calls h s (c # cs) = do { h' \<leftarrow> do_call h s c; do_calls h' s cs }"

fun pre :: "('a :: len) store \<Rightarrow> 'a ptr \<Rightarrow> 'a ptr list \<Rightarrow> 'a ptr call \<Rightarrow> bool" where
  "pre h s xs (Push_front x) = (h x \<noteq> None \<and> x \<notin> set (s # xs))"
| "pre h s xs (Push_back x) = (h x \<noteq> None \<and> x \<notin> set (s # xs))"
| "pre h s xs Pop_front = (xs \<noteq> [])"
| "pre h s xs Pop_back = (xs \<noteq> [])"
| "pre h s xs (Erase x) = True"
| "pre h s xs (Swap a b) = (a \<in> set xs \<and> b \<in> set xs)"

fun effect :: "('a :: len) ptr call \<Rightarrow> 'a ptr list \<Rightarrow> 'a ptr list" where
  "effect (Push_front x) xs = x # xs"
| "effect (Push_back x) xs = xs @ [x]"
| "effect Pop_front xs = tl xs"
| "effect Pop_back xs = butlast xs"
| "effect (Erase x) xs = remove1 x xs"
| "effect (Swap a b) xs = swap_list a b xs"

fun pres :: "('a :: len) store \<Rightarrow> 'a ptr \<Rightarrow> 'a ptr list \<Rightarrow> 'a ptr call list \<Rightarrow> bool" where
  "pres h s xs [] = True"
| "pres h s xs (c # cs) = (pre h s xs c \<and> pres h s (effect c xs) cs)"

fun effects :: "('a :: len) ptr call list \<Rightarrow> 'a ptr list \<Rightarrow> 'a ptr list" where
  "effects [] xs = xs"
| "effects (c # cs) xs = effects cs (effect c xs)"

section \<open>Example stores\<close>

text \<open>
  On a 64-bit platform: \<open>ex_fresh\<close> holds an empty list whose sentinel is at address 1
  and three freshly constructed nodes; \<open>ex_one\<close> holds the list \<open>[16]\<close>; \<open>ex_three\<close>
  holds the list \<open>[16, 32, 48]\<close> and a freshly constructed node at 64; \<open>ex_moved\<close> is
  \<open>ex_one\<close> after its list has been moved into a list whose sentinel is at 2.
\<close>

definition ex_fresh :: "64 store" where
  "ex_fresh = [1 \<mapsto> \<lparr>m_prev = 1, m_next = 1\<rparr>,
     16 \<mapsto> \<lparr>m_prev = nullptr, m_next = nullptr\<rparr>,
     32 \<mapsto> \<lparr>m_prev = nullptr, m_next = nullptr\<rparr>,
     48 \<mapsto> \<lparr>m_prev = nullptr, m_next = nullptr\<rparr>]"

definition ex_one :: "64 store" where
  "ex_one = [1 \<mapsto> \<lparr>m_prev = 16, m_next = 16\<rparr>,
     16 \<mapsto> \<lparr>m_prev = 1, m_next = 1\<rparr>]"

definition ex_three :: "64 store" where
  "ex_three = [1 \<mapsto> \<lparr>m_prev = 48, m_next = 16\<rparr>,
     16 \<mapsto> \<lparr>m_prev = 1, m_next = 32\<rparr>,
     32 \<mapsto> \<lparr>m_prev = 16, m_next = 48\<rparr>,
     48 \<mapsto> \<lparr>m_prev = 32, m_next = 1\<rparr>,
     64 \<mapsto> \<lparr>m_prev = nullptr, m_next = nullptr\<rparr>]"

definition ex_moved :: "64 store" where
  "ex_moved = [1 \<mapsto> \<lparr>m_prev = 1, m_next = 1\<rparr>,
     16 \<mapsto> \<lparr>m_prev = 1, m_next = 1\<rparr>,
     2 \<mapsto> \<lparr>m_prev = 16, m_next = 16\<rparr>]"

section \<open>Reads after writes, chains and rings\<close>

subsection \<open>Reads after writes\<close>

lemma wr_prev_dom: "p \<in> dom h \<Longrightarrow> wr_prev h p v = Some (upd_prev h p v)"
  by (auto simp: wr_prev_def upd_prev_def)

lemma wr_next_dom: "p \<in> dom h \<Longrightarrow> wr_next h p v = Some (upd_next h p v)"
  by (auto simp: wr_next_def upd_next_def)

lemma dom_upd_prev: "p \<in> dom h \<Longrightarrow> dom (upd_prev h p v) = dom h"
  by (auto simp: upd_prev_def)

lemma dom_upd_next: "p \<in> dom h \<Longrightarrow> dom (upd_next h p v) = dom h"
  by (auto simp: upd_next_def)

lemma rd_prev_upd_prev:
  "p \<in> dom h \<Longrightarrow> rd_prev (upd_prev h p v) q = (if q = p then Some v else rd_prev h q)"
  by (simp add: rd_prev_def upd_prev_def)

lemma rd_next_upd_next:
  "p \<in> dom h \<Longrightarrow> rd_next (upd_next h p v) q = (if q = p then Some v else rd_next h q)"
  by (simp add: rd_next_def upd_next_def)

lemma rd_prev_upd_next: "p \<in> dom h \<Longrightarrow> rd_prev (upd_next h p v) q = rd_prev h q"
  by (auto simp: rd_prev_def upd_next_def)

lemma rd_next_upd_prev: "p \<in> dom h \<Longrightarrow> rd_next (upd_prev h p v) q = rd_next h q"
  by (auto simp: rd_next_def upd_prev_def)

lemmas upd_simps = wr_prev_dom wr_next_dom dom_upd_prev dom_upd_next
  rd_prev_upd_prev rd_next_upd_next rd_prev_upd_next rd_next_upd_prev

lemma rd_next_dom: "rd_next h p = Some q \<Longrightarrow> p \<in> dom h"
  by (auto simp: rd_next_def)

lemma rd_prev_dom: "rd_prev h p = Some q \<Longrightarrow> p \<in> dom h"
  by (auto simp: rd_prev_def)

lemma store_eqI:
  assumes "\<And>q. rd_next h q = rd_next h' q" and "\<And>q. rd_prev h q = rd_prev h' q"
  shows "h = h'"
proof
  fix q
  show "h q = h' q"
    using assms(1) [of q] assms(2) [of q]
    by (cases "h q"; cases "h' q") (auto simp: rd_next_def rd_prev_def)
qed

subsection \<open>Chains\<close>

lemma chain_Cons:
  "chain h (a # bs) =
     (bs = [] \<or> (rd_next h a = Some (hd bs) \<and> rd_prev h (hd bs) = Some a \<and> chain h bs))"
  by (cases bs) auto

lemma chain_append:
  "chain h (us @ x # vs) = (chain h (us @ [x]) \<and> chain h (x # vs))"
  by (induction h us rule: chain.induct) (auto simp: chain_Cons)

lemma chain_dom: "chain h (a # b # r) \<Longrightarrow> set (a # b # r) \<subseteq> dom h"
proof (induction r arbitrary: a b)
  case Nil
  then show ?case by (auto dest: rd_next_dom rd_prev_dom)
next
  case (Cons c r)
  from Cons.prems have "chain h (b # c # r)" and "rd_next h a = Some b" by auto
  with Cons.IH [of b c] show ?case by (auto dest: rd_next_dom)
qed

lemma ring_dom: "ring h s xs \<Longrightarrow> set (s # xs) \<subseteq> dom h"
proof -
  assume "ring h s xs"
  then have "chain h (s # xs @ [s])" by (simp add: ring_def)
  then have "set (s # xs @ [s]) \<subseteq> dom h"
    by (cases xs) (auto dest!: chain_dom simp del: chain.simps)
  then show ?thesis by auto
qed

lemma chain_frame:
  assumes "chain h ps"
    and "\<And>p. p \<in> set (butlast ps) \<Longrightarrow> rd_next h' p = rd_next h p"
    and "\<And>p. p \<in> set (tl ps) \<Longrightarrow> rd_prev h' p = rd_prev h p"
  shows "chain h' ps"
  using assms
  by (induction h ps rule: chain.induct) (auto simp: chain_Cons)

subsection \<open>The loops on a ring\<close>

lemma size_loop_chain:
  "chain h (ps @ [s]) \<Longrightarrow> s \<notin> set ps \<Longrightarrow>
   size_loop h s (hd (ps @ [s])) c = Some (c + of_nat (length ps))"
proof (induction ps arbitrary: c)
  case Nil
  show ?case by (subst size_loop.simps) simp
next
  case (Cons p ps)
  from Cons.prems have nx: "rd_next h p = Some (hd (ps @ [s]))" and ch: "chain h (ps @ [s])"
    and ne: "p \<noteq> s" and ni: "s \<notin> set ps"
    by (auto simp: chain_Cons)
  have "size_loop h s p c = size_loop h s (hd (ps @ [s])) (c + 1)"
    by (subst size_loop.simps) (simp add: nx ne)
  also have "\<dots> = Some (c + 1 + of_nat (length ps))"
    by (rule Cons.IH [OF ch ni])
  finally show ?case by (simp add: add.assoc add.commute)
qed

lemma iterate_chain:
  "chain h (ps @ [s]) \<Longrightarrow> s \<notin> set ps \<Longrightarrow> iterate h (hd (ps @ [s])) s = Some ps"
proof (induction ps)
  case Nil
  show ?case by (subst iterate.simps) simp
next
  case (Cons p ps)
  from Cons.prems have nx: "rd_next h p = Some (hd (ps @ [s]))" and ch: "chain h (ps @ [s])"
    and ne: "p \<noteq> s" and ni: "s \<notin> set ps"
    by (auto simp: chain_Cons)
  have "iterate h p s = do { r \<leftarrow> iterate h (hd (ps @ [s])) s; Some (p # r) }"
    by (subst iterate.simps) (simp add: nx ne)
  also have "\<dots> = Some (p # ps)"
    by (simp add: Cons.IH [OF ch ni])
  finally show ?case by simp
qed

lemma ring_first:
  "ring h s xs \<Longrightarrow> rd_next h s = Some (hd (xs @ [s])) \<and> chain h (xs @ [s]) \<and> s \<notin> set xs"
  by (auto simp: ring_def chain_Cons)

lemma ring_size: "ring h s xs \<Longrightarrow> size_il h s = Some (of_nat (length xs))"
  using size_loop_chain [of h xs s 0] by (auto simp: size_il_def dest!: ring_first)

lemma ring_order: "ring h s xs \<Longrightarrow> order h s = Some xs"
  using iterate_chain [of h xs s]
  by (auto simp: order_def begin_il_def end_il_def dest!: ring_first)

lemma ring_empty: "ring h s xs \<Longrightarrow> empty_il h s = Some (xs = [])"
  by (cases xs) (auto simp: empty_il_def dest!: ring_first)

lemma ring_length:
  fixes s :: "('a :: len) ptr"
  assumes "ring h s xs"
  shows "Suc (length xs) \<le> 2 ^ LENGTH('a)"
proof -
  from assms have "distinct (s # xs)" by (simp add: ring_def)
  then have "card (set (s # xs)) = length (s # xs)" by (rule distinct_card)
  moreover have "card (set (s # xs)) \<le> card (UNIV :: 'a word set)"
    by (rule card_mono) auto
  ultimately show ?thesis by (simp add: card_word)
qed

lemma ring_size_unat: "ring h s xs \<Longrightarrow> \<exists>n. size_il h s = Some n \<and> unat n = length xs"
  using ring_length [of h s xs] by (auto simp: ring_size unat_of_nat)

lemma distinct_tl_hd: "distinct ps \<Longrightarrow> p \<in> set (tl ps) \<Longrightarrow> p \<noteq> hd ps"
  by (cases ps) auto

lemma distinct_butlast_last: "distinct ps \<Longrightarrow> p \<in> set (butlast ps) \<Longrightarrow> p \<noteq> last ps"
  by (cases ps rule: rev_cases) auto

lemma chain_snoc:
  "ps \<noteq> [] \<Longrightarrow>
   chain h (ps @ [b]) =
     (chain h ps \<and> rd_next h (last ps) = Some b \<and> rd_prev h b = Some (last ps))"
proof (cases ps rule: rev_cases)
  case Nil
  assume "ps \<noteq> []"
  with Nil show ?thesis by simp
next
  case (snoc qs a)
  show ?thesis
    using chain_append [of h qs a "[b]"] by (auto simp: snoc)
qed

lemma ring_last:
  "ring h s xs \<Longrightarrow>
   rd_prev h s = Some (last (s # xs)) \<and> rd_next h (last (s # xs)) = Some s \<and> chain h (s # xs)"
  using chain_snoc [of "s # xs" h s] by (simp add: ring_def del: chain.simps last.simps)

subsection \<open>Popping\<close>

lemma pop_front_eq:
  "rd_next h s = Some x \<Longrightarrow> rd_next h x = Some n \<Longrightarrow> n \<in> dom h \<Longrightarrow>
   pop_front h s = Some (upd_prev (upd_next h s n) n s)"
  by (frule rd_next_dom) (simp add: pop_front_def upd_simps)

lemma pop_back_eq:
  "rd_prev h s = Some x \<Longrightarrow> rd_prev h x = Some n \<Longrightarrow> n \<in> dom h \<Longrightarrow>
   pop_back h s = Some (upd_next (upd_prev h s n) n s)"
  by (frule rd_prev_dom) (simp add: pop_back_def upd_simps)

lemma pop_front_empty: "ring h s [] \<Longrightarrow> pop_front h s = Some h"
proof -
  assume "ring h s []"
  then have n: "rd_next h s = Some s" and p: "rd_prev h s = Some s"
    by (simp_all add: ring_def)
  from n have d: "s \<in> dom h" by (rule rd_next_dom)
  have "upd_prev (upd_next h s s) s s = h"
    by (rule store_eqI) (simp_all add: upd_simps d n p)
  with pop_front_eq [OF n n d] show ?thesis by simp
qed

lemma pop_back_empty: "ring h s [] \<Longrightarrow> pop_back h s = Some h"
proof -
  assume "ring h s []"
  then have n: "rd_next h s = Some s" and p: "rd_prev h s = Some s"
    by (simp_all add: ring_def)
  from n have d: "s \<in> dom h" by (rule rd_next_dom)
  have "upd_next (upd_prev h s s) s s = h"
    by (rule store_eqI) (simp_all add: upd_simps d n p)
  with pop_back_eq [OF p p d] show ?thesis by simp
qed

lemma pop_front_ring:
  assumes "ring h s (x # xs)"
  shows "\<exists>h'. pop_front h s = Some h' \<and> ring h' s xs \<and> (\<forall>q. q \<noteq> s \<longrightarrow> rd_next h' q = rd_next h q)
     \<and> (\<forall>q. q \<noteq> hd (xs @ [s]) \<longrightarrow> rd_prev h' q = rd_prev h q) \<and> dom h' = dom h"
proof -
  let ?n = "hd (xs @ [s])"
  let ?h = "upd_prev (upd_next h s ?n) ?n s"
  from assms have d: "distinct (s # x # xs)" and sx: "rd_next h s = Some x"
    and xn: "rd_next h x = Some ?n" and ch: "chain h (xs @ [s])"
    by (auto simp: ring_def chain_Cons)
  from ring_dom [OF assms] have sd: "s \<in> dom h" and nd: "?n \<in> dom h"
    by (cases xs; auto)+
  from d have d': "distinct (xs @ [s])" by auto
  have eq: "pop_front h s = Some ?h" by (rule pop_front_eq [OF sx xn nd])
  have "chain ?h (xs @ [s])"
  proof (rule chain_frame [OF ch])
    fix p assume "p \<in> set (butlast (xs @ [s]))"
    with d have "p \<noteq> s" by auto
    then show "rd_next ?h p = rd_next h p" by (simp add: upd_simps sd nd)
  next
    fix p assume "p \<in> set (tl (xs @ [s]))"
    with d' have "p \<noteq> ?n" by (rule distinct_tl_hd)
    then show "rd_prev ?h p = rd_prev h p" by (simp add: upd_simps sd nd)
  qed
  then have "ring ?h s xs"
    using d by (simp add: ring_def chain_Cons upd_simps sd nd del: chain.simps)
  with eq show ?thesis by (simp add: upd_simps sd nd)
qed

lemma pop_back_ring:
  assumes "ring h s (xs @ [x])"
  shows "\<exists>h'. pop_back h s = Some h' \<and> ring h' s xs \<and> (\<forall>q. q \<noteq> s \<longrightarrow> rd_prev h' q = rd_prev h q)
     \<and> (\<forall>q. q \<noteq> last (s # xs) \<longrightarrow> rd_next h' q = rd_next h q) \<and> dom h' = dom h"
proof -
  define n where "n = last (s # xs)"
  define h' where "h' = upd_next (upd_prev h s n) n s"
  from assms have d: "distinct (s # xs @ [x])" by (simp add: ring_def)
  from ring_last [OF assms] have sx: "rd_prev h s = Some x" and c0: "chain h ((s # xs) @ [x])"
    by simp_all
  have "chain h ((s # xs) @ [x]) =
      (chain h (s # xs) \<and> rd_next h n = Some x \<and> rd_prev h x = Some n)"
    unfolding n_def by (rule chain_snoc) simp
  with c0 have xn: "rd_prev h x = Some n" and ch: "chain h (s # xs)"
    by blast+
  have "n \<in> set (s # xs)" unfolding n_def by (rule last_in_set) simp
  with ring_dom [OF assms] have sd: "s \<in> dom h" and nd: "n \<in> dom h"
    by auto
  from d have d': "distinct (s # xs)" by auto
  have eq: "pop_back h s = Some h'"
    unfolding h'_def by (rule pop_back_eq [OF sx xn nd])
  have "chain h' (s # xs)"
  proof (rule chain_frame [OF ch])
    fix p assume "p \<in> set (butlast (s # xs))"
    with d' have "p \<noteq> n" unfolding n_def by (rule distinct_butlast_last)
    then show "rd_next h' p = rd_next h p" by (simp add: h'_def upd_simps sd nd)
  next
    fix p assume "p \<in> set (tl (s # xs))"
    with d have "p \<noteq> s" by auto
    then show "rd_prev h' p = rd_prev h p" by (simp add: h'_def upd_simps sd nd)
  qed
  moreover have "rd_next h' n = Some s" "rd_prev h' s = Some n"
    by (simp_all add: h'_def upd_simps sd nd)
  moreover have "chain h' ((s # xs) @ [s]) =
      (chain h' (s # xs) \<and> rd_next h' n = Some s \<and> rd_prev h' s = Some n)"
    unfolding n_def by (rule chain_snoc) simp
  ultimately have "chain h' ((s # xs) @ [s])"
    by blast
  then have "chain h' (s # xs @ [s])" by (simp del: chain.simps)
  then have "ring h' s xs"
    using d by (simp add: ring_def del: chain.simps)
  moreover have "\<forall>q. q \<noteq> s \<longrightarrow> rd_prev h' q = rd_prev h q"
    by (simp add: h'_def upd_simps sd nd)
  moreover have "\<forall>q. q \<noteq> n \<longrightarrow> rd_next h' q = rd_next h q"
    by (simp add: h'_def upd_simps sd nd)
  moreover have "dom h' = dom h"
    by (simp add: h'_def upd_simps sd nd)
  ultimately show ?thesis using eq unfolding n_def by blast
qed

lemma node_eqI: "rd_next h q = rd_next h' q \<Longrightarrow> rd_prev h q = rd_prev h' q \<Longrightarrow> h q = h' q"
  by (cases "h q"; cases "h' q") (auto simp: rd_next_def rd_prev_def)

lemma ring_first_prev: "ring h s xs \<Longrightarrow> rd_prev h (hd (xs @ [s])) = Some s"
  by (auto simp: ring_def chain_Cons)

subsection \<open>Pushing\<close>

lemma push_front_eq:
  "rd_next h s = Some f \<Longrightarrow> f \<in> dom h \<Longrightarrow> x \<in> dom h \<Longrightarrow>
   push_front h s x = Some (upd_next (upd_prev (upd_next (upd_prev h f x) x f) x s) s x)"
  by (frule rd_next_dom) (simp add: push_front_def upd_simps)

lemma push_back_eq:
  "rd_prev h s = Some l \<Longrightarrow> l \<in> dom h \<Longrightarrow> x \<in> dom h \<Longrightarrow>
   push_back h s x = Some (upd_prev (upd_next (upd_prev (upd_next h l x) x l) x s) s x)"
  by (frule rd_prev_dom) (simp add: push_back_def upd_simps)

lemma push_front_ring:
  assumes "ring h s xs" and xd: "x \<in> dom h" and xn: "x \<notin> set (s # xs)"
  shows "\<exists>h'. push_front h s x = Some h' \<and> ring h' s (x # xs) \<and> dom h' = dom h
     \<and> (\<forall>q. q \<noteq> s \<longrightarrow> q \<noteq> x \<longrightarrow> rd_next h' q = rd_next h q)
     \<and> (\<forall>q. q \<noteq> hd (xs @ [s]) \<longrightarrow> q \<noteq> x \<longrightarrow> rd_prev h' q = rd_prev h q)"
proof -
  define f where "f = hd (xs @ [s])"
  define h' where "h' = upd_next (upd_prev (upd_next (upd_prev h f x) x f) x s) s x"
  from assms have d: "distinct (s # xs)" by (simp add: ring_def)
  from ring_first [OF assms(1)] have sf: "rd_next h s = Some f" and ch: "chain h (xs @ [s])"
    by (simp_all add: f_def)
  have "f \<in> set (s # xs)" unfolding f_def by (cases xs) auto
  with ring_dom [OF assms(1)] have sd: "s \<in> dom h" and fd: "f \<in> dom h" by auto
  from \<open>f \<in> set (s # xs)\<close> xn have fx: "f \<noteq> x" by auto
  from xn have sx: "x \<noteq> s" by auto
  have eq: "push_front h s x = Some h'"
    unfolding h'_def by (rule push_front_eq [OF sf fd xd])
  have "chain h' (xs @ [s])"
  proof (rule chain_frame [OF ch])
    fix p assume "p \<in> set (butlast (xs @ [s]))"
    with d xn have "p \<noteq> s" "p \<noteq> x" by auto
    then show "rd_next h' p = rd_next h p" by (simp add: h'_def upd_simps sd fd xd)
  next
    fix p assume p: "p \<in> set (tl (xs @ [s]))"
    from d have "distinct (xs @ [s])" by auto
    from this p have "p \<noteq> f" unfolding f_def by (rule distinct_tl_hd)
    moreover from p xn have "p \<noteq> x" by (cases xs) auto
    ultimately show "rd_prev h' p = rd_prev h p" by (simp add: h'_def upd_simps sd fd xd)
  qed
  moreover have "rd_next h' s = Some x" "rd_prev h' x = Some s" "rd_next h' x = Some f"
    "rd_prev h' f = Some x"
    using fx sx by (simp_all add: h'_def upd_simps sd fd xd)
  ultimately have "chain h' (s # x # xs @ [s])"
    by (simp add: chain_Cons f_def del: chain.simps)
  then have "ring h' s (x # xs)"
    using d xn by (auto simp: ring_def simp del: chain.simps)
  moreover have "\<forall>q. q \<noteq> s \<longrightarrow> q \<noteq> x \<longrightarrow> rd_next h' q = rd_next h q"
    by (simp add: h'_def upd_simps sd fd xd)
  moreover have "\<forall>q. q \<noteq> f \<longrightarrow> q \<noteq> x \<longrightarrow> rd_prev h' q = rd_prev h q"
    by (simp add: h'_def upd_simps sd fd xd)
  moreover have "dom h' = dom h"
    by (simp add: h'_def upd_simps sd fd xd)
  ultimately show ?thesis using eq unfolding f_def by blast
qed

lemma push_back_ring:
  assumes "ring h s xs" and xd: "x \<in> dom h" and xn: "x \<notin> set (s # xs)"
  shows "\<exists>h'. push_back h s x = Some h' \<and> ring h' s (xs @ [x]) \<and> dom h' = dom h
     \<and> (\<forall>q. q \<noteq> last (s # xs) \<longrightarrow> q \<noteq> x \<longrightarrow> rd_next h' q = rd_next h q)
     \<and> (\<forall>q. q \<noteq> s \<longrightarrow> q \<noteq> x \<longrightarrow> rd_prev h' q = rd_prev h q)"
proof -
  define l where "l = last (s # xs)"
  define h' where "h' = upd_prev (upd_next (upd_prev (upd_next h l x) x l) x s) s x"
  from assms have d: "distinct (s # xs)" by (simp add: ring_def)
  from ring_last [OF assms(1)] have sl: "rd_prev h s = Some l" and ch: "chain h (s # xs)"
    by (simp_all add: l_def)
  have lin: "l \<in> set (s # xs)" unfolding l_def by (rule last_in_set) simp
  with ring_dom [OF assms(1)] have sd: "s \<in> dom h" and ld: "l \<in> dom h" by auto
  from lin xn have lx: "l \<noteq> x" by auto
  from xn have sx: "x \<noteq> s" by auto
  have eq: "push_back h s x = Some h'"
    unfolding h'_def by (rule push_back_eq [OF sl ld xd])
  have "chain h' (s # xs)"
  proof (rule chain_frame [OF ch])
    fix p assume p: "p \<in> set (butlast (s # xs))"
    with d have "p \<noteq> l" unfolding l_def by (intro distinct_butlast_last)
    moreover from in_set_butlastD [OF p] xn have "p \<noteq> x" by auto
    ultimately show "rd_next h' p = rd_next h p" by (simp add: h'_def upd_simps sd ld xd)
  next
    fix p assume "p \<in> set (tl (s # xs))"
    with d xn have "p \<noteq> s" "p \<noteq> x" by auto
    then show "rd_prev h' p = rd_prev h p" by (simp add: h'_def upd_simps sd ld xd)
  qed
  moreover have "rd_next h' l = Some x" "rd_prev h' x = Some l" "rd_next h' x = Some s"
    "rd_prev h' s = Some x"
    using lx sx by (simp_all add: h'_def upd_simps sd ld xd)
  moreover have "chain h' ((s # xs) @ [x]) =
      (chain h' (s # xs) \<and> rd_next h' l = Some x \<and> rd_prev h' x = Some l)"
    unfolding l_def by (rule chain_snoc) simp
  moreover have "chain h' ((s # xs @ [x]) @ [s]) =
      (chain h' (s # xs @ [x]) \<and> rd_next h' (last (s # xs @ [x])) = Some s
        \<and> rd_prev h' s = Some (last (s # xs @ [x])))"
    by (rule chain_snoc) simp
  ultimately have "chain h' (s # (xs @ [x]) @ [s])"
    by (simp del: chain.simps)
  then have "ring h' s (xs @ [x])"
    using d xn by (auto simp: ring_def simp del: chain.simps)
  moreover have "\<forall>q. q \<noteq> l \<longrightarrow> q \<noteq> x \<longrightarrow> rd_next h' q = rd_next h q"
    by (simp add: h'_def upd_simps sd ld xd)
  moreover have "\<forall>q. q \<noteq> s \<longrightarrow> q \<noteq> x \<longrightarrow> rd_prev h' q = rd_prev h q"
    by (simp add: h'_def upd_simps sd ld xd)
  moreover have "dom h' = dom h"
    by (simp add: h'_def upd_simps sd ld xd)
  ultimately show ?thesis using eq unfolding l_def by blast
qed

lemma push_pop_front:
  assumes r: "ring h s xs" and xd: "x \<in> dom h" and xn: "x \<notin> set (s # xs)"
  shows "\<exists>h1 h2. push_front h s x = Some h1 \<and> pop_front h1 s = Some h2 \<and> ring h2 s xs
     \<and> (\<forall>q. q \<noteq> x \<longrightarrow> h2 q = h q)"
proof -
  from push_front_ring [OF assms] obtain h1 where
    1: "push_front h s x = Some h1" "ring h1 s (x # xs)"
    "\<forall>q. q \<noteq> s \<longrightarrow> q \<noteq> x \<longrightarrow> rd_next h1 q = rd_next h q"
    "\<forall>q. q \<noteq> hd (xs @ [s]) \<longrightarrow> q \<noteq> x \<longrightarrow> rd_prev h1 q = rd_prev h q"
    by blast
  from pop_front_ring [OF 1(2)] obtain h2 where
    2: "pop_front h1 s = Some h2" "ring h2 s xs"
    "\<forall>q. q \<noteq> s \<longrightarrow> rd_next h2 q = rd_next h1 q"
    "\<forall>q. q \<noteq> hd (xs @ [s]) \<longrightarrow> rd_prev h2 q = rd_prev h1 q"
    by blast
  have "h2 q = h q" if "q \<noteq> x" for q
  proof (rule node_eqI)
    show "rd_next h2 q = rd_next h q"
      using ring_first [OF r] ring_first [OF 2(2)] 1(3) 2(3) that by (cases "q = s") auto
    show "rd_prev h2 q = rd_prev h q"
      using ring_first_prev [OF r] ring_first_prev [OF 2(2)] 1(4) 2(4) that
      by (cases "q = hd (xs @ [s])") auto
  qed
  with 1 2 show ?thesis by blast
qed

lemma chain_app:
  assumes "us \<noteq> []" and "vs \<noteq> []"
  shows "chain h (us @ vs) =
     (chain h us \<and> rd_next h (last us) = Some (hd vs) \<and> rd_prev h (hd vs) = Some (last us)
      \<and> chain h vs)"
proof -
  from assms(2) obtain v vs' where vs: "vs = v # vs'" by (cases vs) auto
  have "chain h (us @ v # vs') = (chain h (us @ [v]) \<and> chain h (v # vs'))"
    by (rule chain_append)
  also have "chain h (us @ [v]) =
     (chain h us \<and> rd_next h (last us) = Some v \<and> rd_prev h v = Some (last us))"
    by (rule chain_snoc [OF assms(1)])
  finally show ?thesis by (auto simp: vs)
qed

subsection \<open>Unlinking and erasing\<close>

lemma unlink_eq:
  "rd_prev h x = Some p \<Longrightarrow> rd_next h x = Some n \<Longrightarrow> p \<in> dom h \<Longrightarrow> n \<in> dom h \<Longrightarrow>
   unlink h s x = Some (upd_prev (upd_next (upd_prev (upd_next h p n) n p) x s) x s, p)"
  by (frule rd_prev_dom) (simp add: unlink_def upd_simps)

lemma ring_split:
  assumes "ring h s (l @ x # r)"
  shows "chain h (s # l) \<and> rd_next h (last (s # l)) = Some x \<and> rd_prev h x = Some (last (s # l))
     \<and> rd_next h x = Some (hd (r @ [s])) \<and> rd_prev h (hd (r @ [s])) = Some x
     \<and> chain h (r @ [s])"
proof -
  from assms have "chain h ((s # l) @ (x # r @ [s]))" by (simp add: ring_def)
  moreover have "chain h ((s # l) @ (x # r @ [s])) =
     (chain h (s # l) \<and> rd_next h (last (s # l)) = Some (hd (x # r @ [s]))
      \<and> rd_prev h (hd (x # r @ [s])) = Some (last (s # l)) \<and> chain h (x # r @ [s]))"
    by (rule chain_app) simp_all
  ultimately have "chain h (s # l)" "rd_next h (last (s # l)) = Some x"
    "rd_prev h x = Some (last (s # l))" "chain h (x # r @ [s])"
    by (simp_all del: chain.simps last.simps)
  then show ?thesis by (simp add: chain_Cons del: chain.simps last.simps)
qed

lemma unlink_ring:
  assumes r: "ring h s (l @ x # r)"
  shows "\<exists>h'. unlink h s x = Some (h', last (s # l)) \<and> ring h' s (l @ r) \<and> dom h' = dom h
     \<and> rd_next h' x = Some s \<and> rd_prev h' x = Some s
     \<and> rd_next h' (last (s # l)) = Some (hd (r @ [s]))
     \<and> rd_prev h' (hd (r @ [s])) = Some (last (s # l))
     \<and> (\<forall>q. q \<noteq> x \<longrightarrow> q \<noteq> last (s # l) \<longrightarrow> rd_next h' q = rd_next h q)
     \<and> (\<forall>q. q \<noteq> x \<longrightarrow> q \<noteq> hd (r @ [s]) \<longrightarrow> rd_prev h' q = rd_prev h q)"
proof -
  define p where "p = last (s # l)"
  define n where "n = hd (r @ [s])"
  define h' where "h' = upd_prev (upd_next (upd_prev (upd_next h p n) n p) x s) x s"
  from r have d: "distinct (s # l @ x # r)" by (simp add: ring_def)
  from ring_split [OF r] have cl: "chain h (s # l)" and px: "rd_prev h x = Some p"
    and xn: "rd_next h x = Some n" and cr: "chain h (r @ [s])"
    by (simp_all add: p_def n_def del: last.simps)
  have pin: "p \<in> set (s # l)" unfolding p_def by (rule last_in_set) simp
  have nin: "n \<in> set (r @ [s])" unfolding n_def by (rule hd_in_set) simp
  from ring_dom [OF r] pin nin have pd: "p \<in> dom h" and nd: "n \<in> dom h" and xd: "x \<in> dom h"
    by auto
  from d pin nin have ne: "p \<noteq> x" "n \<noteq> x" by auto
  have eq: "unlink h s x = Some (h', p)"
    unfolding h'_def by (rule unlink_eq [OF px xn pd nd])
  have "chain h' (s # l)"
  proof (rule chain_frame [OF cl])
    fix q assume q: "q \<in> set (butlast (s # l))"
    from d have "distinct (s # l)" by auto
    from this q have "q \<noteq> p" unfolding p_def by (rule distinct_butlast_last)
    moreover from in_set_butlastD [OF q] d have "q \<noteq> x" by auto
    ultimately show "rd_next h' q = rd_next h q" by (simp add: h'_def upd_simps pd nd xd)
  next
    fix q assume "q \<in> set (tl (s # l))"
    with d nin have "q \<noteq> n" "q \<noteq> x" by auto
    then show "rd_prev h' q = rd_prev h q" by (simp add: h'_def upd_simps pd nd xd)
  qed
  moreover have "chain h' (r @ [s])"
  proof (rule chain_frame [OF cr])
    fix q assume "q \<in> set (butlast (r @ [s]))"
    with d pin have "q \<noteq> p" "q \<noteq> x" by auto
    then show "rd_next h' q = rd_next h q" by (simp add: h'_def upd_simps pd nd xd)
  next
    fix q assume q: "q \<in> set (tl (r @ [s]))"
    from d have "distinct (r @ [s])" by auto
    from this q have "q \<noteq> n" unfolding n_def by (rule distinct_tl_hd)
    moreover from q d have "q \<noteq> x" by (cases r) auto
    ultimately show "rd_prev h' q = rd_prev h q" by (simp add: h'_def upd_simps pd nd xd)
  qed
  moreover have lk: "rd_next h' p = Some n" "rd_prev h' n = Some p"
    using ne by (simp_all add: h'_def upd_simps pd nd xd)
  moreover have "chain h' ((s # l) @ (r @ [s])) =
     (chain h' (s # l) \<and> rd_next h' p = Some n \<and> rd_prev h' n = Some p \<and> chain h' (r @ [s]))"
    unfolding p_def n_def by (rule chain_app) simp_all
  ultimately have "chain h' (s # (l @ r) @ [s])" by (simp del: chain.simps)
  then have "ring h' s (l @ r)"
    using d by (auto simp: ring_def simp del: chain.simps)
  moreover have "rd_next h' x = Some s" "rd_prev h' x = Some s" "dom h' = dom h"
    by (simp_all add: h'_def upd_simps pd nd xd)
  moreover have "\<forall>q. q \<noteq> x \<longrightarrow> q \<noteq> p \<longrightarrow> rd_next h' q = rd_next h q"
    by (simp add: h'_def upd_simps pd nd xd)
  moreover have "\<forall>q. q \<noteq> x \<longrightarrow> q \<noteq> n \<longrightarrow> rd_prev h' q = rd_prev h q"
    by (simp add: h'_def upd_simps pd nd xd)
  ultimately show ?thesis using eq lk unfolding p_def n_def by blast
qed

lemma erase_loop_miss:
  "chain h (ps @ [s]) \<Longrightarrow> s \<notin> set ps \<Longrightarrow> x \<notin> set ps \<Longrightarrow>
   erase_loop h s (hd (ps @ [s])) x = Some (h, False)"
proof (induction ps)
  case Nil
  show ?case by (subst erase_loop.simps) simp
next
  case (Cons p ps)
  from Cons.prems have nx: "rd_next h p = Some (hd (ps @ [s]))" and ch: "chain h (ps @ [s])"
    and ne: "p \<noteq> s" "p \<noteq> x" and ni: "s \<notin> set ps" "x \<notin> set ps"
    by (auto simp: chain_Cons)
  have "erase_loop h s p x = erase_loop h s (hd (ps @ [s])) x"
    by (subst erase_loop.simps) (simp add: nx ne)
  with Cons.IH [OF ch ni] show ?case by simp
qed

lemma erase_loop_hit:
  "chain h (l @ x # r) \<Longrightarrow> s \<notin> set (l @ [x]) \<Longrightarrow> x \<notin> set l \<Longrightarrow>
   erase_loop h s (hd (l @ [x])) x = do { (h', _) \<leftarrow> unlink h s x; Some (h', True) }"
proof (induction l)
  case Nil
  then show ?case by (subst erase_loop.simps) simp
next
  case (Cons p ps)
  from Cons.prems have nx: "rd_next h p = Some (hd (ps @ [x]))" and ch: "chain h (ps @ x # r)"
    and ne: "p \<noteq> s" "p \<noteq> x" and ni: "s \<notin> set (ps @ [x])" "x \<notin> set ps"
    by (auto simp: chain_Cons hd_append)
  have "erase_loop h s p x = erase_loop h s (hd (ps @ [x])) x"
    by (subst erase_loop.simps) (simp add: nx ne)
  with Cons.IH [OF ch ni] show ?case by simp
qed

lemma erase_miss:
  assumes "ring h s xs" and "x \<notin> set xs"
  shows "erase h s x = Some (h, False)"
proof (cases xs)
  case Nil
  with ring_empty [OF assms(1)] show ?thesis by (simp add: erase_def)
next
  case (Cons y ys)
  from ring_first [OF assms(1)] erase_loop_miss [of h xs s x] assms(2)
  have "erase_loop h s (hd (xs @ [s])) x = Some (h, False)" by simp
  with ring_first [OF assms(1)] ring_empty [OF assms(1)] Cons show ?thesis
    by (simp add: erase_def)
qed

lemma erase_hit:
  assumes r: "ring h s (l @ x # r)"
  shows "erase h s x = do { (h', _) \<leftarrow> unlink h s x; Some (h', True) }"
proof -
  from r have d: "distinct (s # l @ x # r)" by (simp add: ring_def)
  from ring_first [OF r] have f: "rd_next h s = Some (hd (l @ [x]))"
    and ch: "chain h (l @ x # r @ [s])"
    by (simp_all add: hd_append)
  from d have "s \<notin> set (l @ [x])" "x \<notin> set l" by auto
  from erase_loop_hit [OF ch this]
  have "erase_loop h s (hd (l @ [x])) x = do { (h', _) \<leftarrow> unlink h s x; Some (h', True) }" .
  with f ring_empty [OF r] show ?thesis by (simp add: erase_def)
qed

subsection \<open>Swapping\<close>

lemma chain_map:
  assumes "chain h ps"
    and "\<And>x y. rd_next h x = Some y \<Longrightarrow> rd_prev h y = Some x \<Longrightarrow> x \<in> set ps \<Longrightarrow> y \<in> set ps \<Longrightarrow>
       rd_next h' (f x) = Some (f y) \<and> rd_prev h' (f y) = Some (f x)"
  shows "chain h' (map f ps)"
  using assms
proof (induction h ps rule: chain.induct)
  case (1 h a b r)
  from "1.prems"(1) have ab: "rd_next h a = Some b" "rd_prev h b = Some a" and ch: "chain h (b # r)"
    by auto
  have "chain h' (map f (b # r))"
    by (rule "1.IH" [OF ch]) (rule "1.prems"(2), auto)
  moreover have "rd_next h' (f a) = Some (f b) \<and> rd_prev h' (f b) = Some (f a)"
    by (rule "1.prems"(2) [OF ab]) auto
  ultimately show ?case by simp
qed auto

lemma chain_next_in:
  "chain h ps \<Longrightarrow> x \<in> set (butlast ps) \<Longrightarrow>
   \<exists>y \<in> set (tl ps). rd_next h x = Some y \<and> rd_prev h y = Some x"
  by (induction h ps rule: chain.induct) (auto split: if_splits)

lemma chain_prev_in:
  "chain h ps \<Longrightarrow> y \<in> set (tl ps) \<Longrightarrow>
   \<exists>x \<in> set (butlast ps). rd_prev h y = Some x \<and> rd_next h x = Some y"
  by (induction h ps rule: chain.induct) (auto split: if_splits)

lemma ring_next_in:
  assumes "ring h s xs" and "x \<in> set (s # xs)"
  shows "\<exists>y \<in> set (s # xs). rd_next h x = Some y \<and> rd_prev h y = Some x"
proof -
  from assms(1) have "chain h ((s # xs) @ [s])" by (simp add: ring_def)
  from chain_next_in [OF this, of x] assms(2) show ?thesis
    by (auto simp del: chain.simps)
qed

lemma ring_prev_in:
  assumes "ring h s xs" and "y \<in> set (s # xs)"
  shows "\<exists>x \<in> set (s # xs). rd_prev h y = Some x \<and> rd_next h x = Some y"
proof -
  from assms(1) have "chain h ((s # xs) @ [s])" by (simp add: ring_def)
  from chain_prev_in [OF this, of y] assms(2) show ?thesis
    by (auto simp del: chain.simps)
qed

lemma ring_next_mem:
  assumes r: "ring h s (l @ x # r)"
  shows "rd_next h x = Some (hd (r @ [s])) \<and> hd (r @ [s]) \<in> set (r @ [s]) \<and> x \<notin> set (r @ [s])"
proof -
  from r have "distinct (s # l @ x # r)" by (simp add: ring_def)
  moreover have "hd (r @ [s]) \<in> set (r @ [s])" by (rule hd_in_set) simp
  ultimately show ?thesis using ring_split [OF r] by auto
qed

lemma ring_no_loop:
  assumes r: "ring h s xs" and x: "x \<in> set xs"
  shows "rd_next h x \<noteq> Some x"
proof -
  from x obtain l r where "xs = l @ x # r" by (auto simp: in_set_conv_decomp)
  with ring_next_mem [of h s l x r] r show ?thesis by auto
qed

lemma ring_no_two_cycle:
  assumes r: "ring h s xs" and a: "a \<in> set xs" and b: "b \<in> set xs"
    and ab: "rd_next h a = Some b"
  shows "rd_next h b \<noteq> Some a"
proof -
  from a obtain l r where xs: "xs = l @ a # r" by (auto simp: in_set_conv_decomp)
  from r have d: "distinct (s # xs)" by (simp add: ring_def)
  from ring_next_mem [of h s l a r] r xs ab have hb: "b = hd (r @ [s])" by simp
  from b d have "b \<noteq> s" by auto
  with hb obtain r' where r': "r = b # r'" by (cases r) auto
  with xs have "xs = (l @ [a]) @ b # r'" by simp
  with ring_next_mem [of h s "l @ [a]" b r'] r
  have "rd_next h b = Some (hd (r' @ [s]))" "hd (r' @ [s]) \<in> set (r' @ [s])" by simp_all
  moreover from d xs r' have "a \<notin> set (r' @ [s])" by auto
  ultimately show ?thesis by auto
qed

lemma swap_adjacent_eq:
  assumes "rd_prev h lhs = Some lp" and "rd_next h rhs = Some rn"
    and "lp \<in> dom h" and "rn \<in> dom h"
  shows "\<exists>h'. swap_adjacent h lhs rhs = Some h' \<and> dom h' = dom h
     \<and> (\<forall>q. rd_next h' q = (if q = lp then Some rhs else if q = rhs then Some lhs
                            else if q = lhs then Some rn else rd_next h q))
     \<and> (\<forall>q. rd_prev h' q = (if q = rn then Some lhs else if q = rhs then Some lp
                            else if q = lhs then Some rhs else rd_prev h q))"
  using assms rd_prev_dom [OF assms(1)] rd_next_dom [OF assms(2)]
  by (simp add: swap_adjacent_def upd_simps)

lemma swap_general_eq:
  assumes "rd_prev h a = Some ap" and "rd_next h a = Some an"
    and "rd_prev h b = Some bp" and "rd_next h b = Some bn"
    and "ap \<in> dom h" and "an \<in> dom h" and "bp \<in> dom h" and "bn \<in> dom h"
    and "a \<noteq> b" and "an \<noteq> b" and "ap \<noteq> b"
  shows "\<exists>h'. swap_il h a b = Some h' \<and> dom h' = dom h
     \<and> (\<forall>q. rd_next h' q = (if q = a then Some bn else if q = b then Some an
                            else if q = bp then Some a else if q = ap then Some b
                            else rd_next h q))
     \<and> (\<forall>q. rd_prev h' q = (if q = a then Some bp else if q = b then Some ap
                            else if q = bn then Some a else if q = an then Some b
                            else rd_prev h q))"
  using assms rd_prev_dom [OF assms(1)] rd_next_dom [OF assms(4)]
  by (simp add: swap_il_def is_a_left_b_def is_a_right_b_def upd_simps)

lemma swap_list_same: "swap_list a a xs = xs"
  by (induction xs) (auto simp: swap_list_def)

lemma swap_list_twice: "swap_list a b (swap_list a b xs) = xs"
  by (induction xs) (auto simp: swap_list_def)

lemma set_swap_list: "a \<in> set xs \<Longrightarrow> b \<in> set xs \<Longrightarrow> set (swap_list a b xs) = set xs"
  by (auto simp: swap_list_def)

lemma length_swap_list: "length (swap_list a b xs) = length xs"
  by (simp add: swap_list_def)

lemma ring_conj:
  fixes f :: "('a :: len) ptr \<Rightarrow> 'a ptr"
  assumes r: "ring h s xs" and a: "a \<in> set xs" and b: "b \<in> set xs"
    and f: "f = (\<lambda>x. if x = a then b else if x = b then a else x)"
    and step: "\<And>x y. rd_next h x = Some y \<Longrightarrow> rd_prev h y = Some x \<Longrightarrow>
       rd_next h' (f x) = Some (f y) \<and> rd_prev h' (f y) = Some (f x)"
  shows "ring h' s (swap_list a b xs)"
proof -
  from r have d: "distinct (s # xs)" and ch: "chain h (s # xs @ [s])" by (simp_all add: ring_def)
  from d a b have fs: "f s = s" by (auto simp: f)
  have "inj f" by (auto simp: f inj_on_def)
  then have "inj_on f (set (s # xs))" by (rule inj_on_subset) simp
  with d have "distinct (map f (s # xs))" by (simp only: distinct_map)
  moreover have "chain h' (map f (s # xs @ [s]))"
    by (rule chain_map [OF ch]) (rule step)
  ultimately show ?thesis by (simp add: ring_def swap_list_def fs f [symmetric] del: chain.simps)
qed

lemma swap_ring:
  assumes r: "ring h s xs" and a: "a \<in> set xs" and b: "b \<in> set xs"
  shows "\<exists>h'. swap_il h a b = Some h' \<and> ring h' s (swap_list a b xs) \<and> dom h' = dom h"
proof (cases "a = b")
  case True
  with r show ?thesis by (simp add: swap_il_def swap_list_same)
next
  case ab: False
  define f where "f = (\<lambda>x. if x = a then b else if x = b then a else x)"
  from ring_next_in [OF r, of a] a obtain an where
    an: "an \<in> set (s # xs)" "rd_next h a = Some an" "rd_prev h an = Some a" by auto
  from ring_prev_in [OF r, of a] a obtain ap where
    ap: "ap \<in> set (s # xs)" "rd_prev h a = Some ap" "rd_next h ap = Some a" by auto
  from ring_next_in [OF r, of b] b obtain bn where
    bn: "bn \<in> set (s # xs)" "rd_next h b = Some bn" "rd_prev h bn = Some b" by auto
  from ring_prev_in [OF r, of b] b obtain bp where
    bp: "bp \<in> set (s # xs)" "rd_prev h b = Some bp" "rd_next h bp = Some b" by auto
  from ring_dom [OF r] an ap bn bp
  have dm: "an \<in> dom h" "ap \<in> dom h" "bn \<in> dom h" "bp \<in> dom h" by auto
  from ring_no_loop [OF r a] ring_no_loop [OF r b] an ap bn bp
  have nl: "an \<noteq> a" "ap \<noteq> a" "bn \<noteq> b" "bp \<noteq> b" by auto
  show ?thesis
  proof (cases "an = b")
    case left: True
    with an bn have "bp = a" "rd_next h a = Some b" using bp by auto
    from ring_no_two_cycle [OF r a b this(2)] bn ap
    have n2: "bn \<noteq> a" "ap \<noteq> b" by auto
    from swap_adjacent_eq [OF ap(2) bn(2) dm(2) dm(3)] obtain h' where
      h': "swap_adjacent h a b = Some h'" "dom h' = dom h"
      "\<And>q. rd_next h' q = (if q = ap then Some b else if q = b then Some a
                            else if q = a then Some bn else rd_next h q)"
      "\<And>q. rd_prev h' q = (if q = bn then Some a else if q = b then Some ap
                            else if q = a then Some b else rd_prev h q)"
      by blast
    have "ring h' s (swap_list a b xs)"
    proof (rule ring_conj [OF r a b f_def])
      fix x y assume "rd_next h x = Some y" "rd_prev h y = Some x"
      then show "rd_next h' (f x) = Some (f y) \<and> rd_prev h' (f y) = Some (f x)"
        using an ap bn bp nl n2 ab left unfolding h'(3,4) f_def by auto
    qed
    moreover have "swap_il h a b = Some h'"
      using ab an left h'(1) by (simp add: swap_il_def is_a_left_b_def)
    ultimately show ?thesis using h'(2) by blast
  next
    case nleft: False
    show ?thesis
    proof (cases "ap = b")
      case right: True
      with ap bn have "bn = a" "rd_next h b = Some a" by auto
      from ring_no_two_cycle [OF r b a this(2)] an bp
      have n2: "an \<noteq> b" "bp \<noteq> a" by auto
      from swap_adjacent_eq [OF bp(2) an(2) dm(4) dm(1)] obtain h' where
        h': "swap_adjacent h b a = Some h'" "dom h' = dom h"
        "\<And>q. rd_next h' q = (if q = bp then Some a else if q = a then Some b
                              else if q = b then Some an else rd_next h q)"
        "\<And>q. rd_prev h' q = (if q = an then Some b else if q = a then Some bp
                              else if q = b then Some a else rd_prev h q)"
        by blast
      have "ring h' s (swap_list a b xs)"
      proof (rule ring_conj [OF r a b f_def])
        fix x y assume "rd_next h x = Some y" "rd_prev h y = Some x"
        then show "rd_next h' (f x) = Some (f y) \<and> rd_prev h' (f y) = Some (f x)"
          using an ap bn bp nl n2 ab right unfolding h'(3,4) f_def by auto
      qed
      moreover have "swap_il h a b = Some h'"
        using ab an ap nleft right h'(1)
        by (simp add: swap_il_def is_a_left_b_def is_a_right_b_def)
      ultimately show ?thesis using h'(2) by blast
    next
      case nright: False
      from swap_general_eq [OF ap(2) an(2) bp(2) bn(2) dm(2) dm(1) dm(4) dm(3) ab nleft nright]
      obtain h' where
        h': "swap_il h a b = Some h'" "dom h' = dom h"
        "\<And>q. rd_next h' q = (if q = a then Some bn else if q = b then Some an
                            else if q = bp then Some a else if q = ap then Some b
                            else rd_next h q)"
        "\<And>q. rd_prev h' q = (if q = a then Some bp else if q = b then Some ap
                            else if q = bn then Some a else if q = an then Some b
                            else rd_prev h q)"
        by blast
      have "ring h' s (swap_list a b xs)"
      proof (rule ring_conj [OF r a b f_def])
        fix x y assume "rd_next h x = Some y" "rd_prev h y = Some x"
        then show "rd_next h' (f x) = Some (f y) \<and> rd_prev h' (f y) = Some (f x)"
          using an ap bn bp nl ab nleft nright unfolding h'(3,4) f_def by auto
      qed
      with h'(1,2) show ?thesis by blast
    qed
  qed
qed

subsection \<open>Going round a ring\<close>

lemma advance_chain:
  "chain h (n # ps) \<Longrightarrow> k \<le> length ps \<Longrightarrow> advance h k n = Some ((n # ps) ! k)"
proof (induction k arbitrary: n ps)
  case 0
  show ?case by simp
next
  case (Suc k)
  from Suc.prems(2) obtain p ps' where ps: "ps = p # ps'" by (cases ps) auto
  with Suc.prems have "rd_next h n = Some p" "chain h (p # ps')" "k \<le> length ps'" by auto
  with Suc.IH [of p ps'] show ?case by (simp add: ps)
qed

lemma ring_rotate:
  assumes r: "ring h s xs" and n: "n \<in> set (s # xs)"
  shows "\<exists>qs. chain h (n # qs @ [n]) \<and> distinct (n # qs) \<and> length qs = length xs"
proof (cases "n = s")
  case True
  with r have "chain h (n # xs @ [n]) \<and> distinct (n # xs) \<and> length xs = length xs"
    by (simp add: ring_def del: chain.simps)
  then show ?thesis by (rule exI)
next
  case False
  with n obtain l r' where xs: "xs = l @ n # r'" by (auto simp: in_set_conv_decomp)
  from r have d: "distinct (s # xs)" and "chain h ((s # l) @ n # (r' @ [s]))"
    by (simp_all add: ring_def xs)
  then have "chain h ((s # l) @ [n])" "chain h ((n # r') @ [s])"
    unfolding chain_append [of h "s # l" n "r' @ [s]"] by (simp_all del: chain.simps)
  then have "chain h ((n # r') @ s # (l @ [n]))"
    unfolding chain_append [of h "n # r'" s "l @ [n]"] by (simp del: chain.simps)
  then have "chain h (n # (r' @ s # l) @ [n])" by (simp del: chain.simps)
  moreover from d have "distinct (n # (r' @ s # l))" by (auto simp: xs)
  moreover have "length (r' @ s # l) = length xs" by (simp add: xs)
  ultimately show ?thesis by blast
qed

lemma ring_cycle:
  assumes r: "ring h s xs" and n: "n \<in> set (s # xs)"
  shows "advance h (Suc (length xs)) n = Some n"
    and "0 < k \<Longrightarrow> k \<le> length xs \<Longrightarrow> advance h k n \<noteq> Some n"
proof -
  from ring_rotate [OF r n] obtain qs where
    ch: "chain h (n # qs @ [n])" and d: "distinct (n # qs)" and l: "length qs = length xs"
    by blast
  from advance_chain [OF ch, of "Suc (length xs)"] l
  show "advance h (Suc (length xs)) n = Some n"
    by (simp add: nth_append del: advance.simps)
  assume k: "0 < k" "k \<le> length xs"
  with advance_chain [OF ch, of k] l have "advance h k n = Some (qs ! (k - 1))"
    by (cases k) (simp_all add: nth_append del: advance.simps)
  moreover from k l have "qs ! (k - 1) \<in> set qs" by simp
  ultimately show "advance h k n \<noteq> Some n" using d by auto
qed

lemma ring_links:
  assumes r: "ring h s xs" and n: "n \<in> set (s # xs)"
  shows "rd_next h n \<bind> rd_prev h = Some n" and "rd_prev h n \<bind> rd_next h = Some n"
  using ring_next_in [OF r n] ring_prev_in [OF r n] by auto

lemma erase_ring:
  assumes r: "ring h s xs"
  shows "\<exists>h'. erase h s x = Some (h', x \<in> set xs) \<and> ring h' s (remove1 x xs) \<and> dom h' = dom h
    \<and> (x \<notin> set xs \<longrightarrow> h' = h)
    \<and> (x \<in> set xs \<longrightarrow> rd_next h' x = Some s \<and> rd_prev h' x = Some s
        \<and> (\<exists>p n. rd_prev h x = Some p \<and> rd_next h x = Some n \<and> p \<noteq> x \<and> n \<noteq> x
             \<and> rd_next h' p = Some n \<and> rd_prev h' n = Some p
             \<and> (\<forall>q. q \<noteq> x \<longrightarrow> q \<noteq> p \<longrightarrow> rd_next h' q = rd_next h q)
             \<and> (\<forall>q. q \<noteq> x \<longrightarrow> q \<noteq> n \<longrightarrow> rd_prev h' q = rd_prev h q)))"
proof (cases "x \<in> set xs")
  case False
  with erase_miss [OF r False] r show ?thesis by (simp add: remove1_idem)
next
  case True
  then obtain l r' where xs: "xs = l @ x # r'" and xl: "x \<notin> set l"
    by (auto dest: split_list_first)
  from r have r': "ring h s (l @ x # r')" by (simp add: xs)
  then have d: "distinct (s # l @ x # r')" by (simp add: ring_def)
  have "last (s # l) \<in> set (s # l)" by (rule last_in_set) simp
  with d have px: "last (s # l) \<noteq> x" by auto
  have "hd (r' @ [s]) \<in> set (r' @ [s])" by (rule hd_in_set) simp
  with d have nx: "hd (r' @ [s]) \<noteq> x" by auto
  from ring_split [OF r'] have pn: "rd_prev h x = Some (last (s # l))"
    "rd_next h x = Some (hd (r' @ [s]))" by simp_all
  from unlink_ring [OF r'] obtain h' where
    u: "unlink h s x = Some (h', last (s # l))" "ring h' s (l @ r')" "dom h' = dom h"
     "rd_next h' x = Some s" "rd_prev h' x = Some s"
     "rd_next h' (last (s # l)) = Some (hd (r' @ [s]))"
     "rd_prev h' (hd (r' @ [s])) = Some (last (s # l))"
     "\<forall>q. q \<noteq> x \<longrightarrow> q \<noteq> last (s # l) \<longrightarrow> rd_next h' q = rd_next h q"
     "\<forall>q. q \<noteq> x \<longrightarrow> q \<noteq> hd (r' @ [s]) \<longrightarrow> rd_prev h' q = rd_prev h q"
    by blast
  from erase_hit [OF r'] u(1) have "erase h s x = Some (h', x \<in> set xs)"
    using True by simp
  moreover from u(2) xl have "ring h' s (remove1 x xs)" by (simp add: xs remove1_append)
  moreover have "\<exists>p n. rd_prev h x = Some p \<and> rd_next h x = Some n \<and> p \<noteq> x \<and> n \<noteq> x
             \<and> rd_next h' p = Some n \<and> rd_prev h' n = Some p
             \<and> (\<forall>q. q \<noteq> x \<longrightarrow> q \<noteq> p \<longrightarrow> rd_next h' q = rd_next h q)
             \<and> (\<forall>q. q \<noteq> x \<longrightarrow> q \<noteq> n \<longrightarrow> rd_prev h' q = rd_prev h q)"
    using u(6-9) pn px nx by (intro exI [of _ "last (s # l)"] exI [of _ "hd (r' @ [s])"]) simp
  ultimately show ?thesis using True u(3-5) by (intro exI [of _ h']) simp
qed

subsection \<open>Sequences of calls\<close>

lemma call_ring:
  assumes r: "ring h s xs" and p: "pre h s xs c"
  shows "\<exists>h'. do_call h s c = Some h' \<and> ring h' s (effect c xs) \<and> dom h' = dom h"
proof (cases c)
  case (Push_front x)
  with p have "x \<in> dom h" "x \<notin> set (s # xs)" by auto
  from push_front_ring [OF r this] show ?thesis unfolding Push_front by simp blast
next
  case (Push_back x)
  with p have "x \<in> dom h" "x \<notin> set (s # xs)" by auto
  from push_back_ring [OF r this] show ?thesis unfolding Push_back by simp blast
next
  case Pop_front
  with p obtain y ys where xs: "xs = y # ys" by (cases xs) auto
  from pop_front_ring [of h s y ys] r show ?thesis unfolding Pop_front xs by simp blast
next
  case Pop_back
  with p have "butlast xs @ [last xs] = xs" by simp
  with r have "ring h s (butlast xs @ [last xs])" by (simp only:)
  from pop_back_ring [OF this] show ?thesis unfolding Pop_back by simp blast
next
  case (Erase x)
  from erase_ring [OF r, of x] obtain h' where
    "erase h s x = Some (h', x \<in> set xs)" "ring h' s (remove1 x xs)" "dom h' = dom h"
    by blast
  then show ?thesis unfolding Erase by simp
next
  case (Swap a b)
  with p have "a \<in> set xs" "b \<in> set xs" by auto
  from swap_ring [OF r this] show ?thesis unfolding Swap by simp
qed

lemma pre_dom:
  assumes "dom h' = dom h"
  shows "pre h' s xs c = pre h s xs c"
proof -
  have "(h' x \<noteq> None) = (h x \<noteq> None)" for x
    using assms domIff [of x h] domIff [of x h'] by blast
  then show ?thesis by (cases c) simp_all
qed

lemma pres_dom:
  assumes "dom h' = dom h"
  shows "pres h' s xs cs = pres h s xs cs"
  by (induction cs arbitrary: xs) (simp_all add: pre_dom [OF assms])

lemma calls_ring:
  "ring h s xs \<Longrightarrow> pres h s xs cs \<Longrightarrow>
   \<exists>h'. do_calls h s cs = Some h' \<and> ring h' s (effects cs xs)"
proof (induction cs arbitrary: h xs)
  case Nil
  then show ?case by simp
next
  case (Cons c cs)
  from Cons.prems have p: "pre h s xs c" and ps: "pres h s (effect c xs) cs" by auto
  from call_ring [OF Cons.prems(1) p] obtain h1 where
    1: "do_call h s c = Some h1" "ring h1 s (effect c xs)" "dom h1 = dom h" by blast
  from ps pres_dom [OF 1(3)] have "pres h1 s (effect c xs) cs" by simp
  from Cons.IH [OF 1(2) this] 1(1) show ?case by simp
qed

subsection \<open>Loops that never meet the sentinel\<close>

lemma iterate_stuck:
  assumes "rd_next h it = Some it" and "it \<noteq> e"
  shows "iterate h it e = None"
proof (rule ccontr)
  assume "iterate h it e \<noteq> None"
  then obtain r where "iterate h it e = Some r" by auto
  then have "\<not> (rd_next h it = Some it \<and> it \<noteq> e)"
    by (rule iterate.raw_induct [rotated, where P = "\<lambda>h it e r. \<not> (rd_next h it = Some it \<and> it \<noteq> e)"])
      (auto split: if_splits bind_splits)
  with assms show False by simp
qed

lemma size_loop_stuck:
  assumes "rd_next h n = Some n" and "n \<noteq> s"
  shows "size_loop h s n c = None"
proof (rule ccontr)
  assume "size_loop h s n c \<noteq> None"
  then obtain r where "size_loop h s n c = Some r" by auto
  then have "\<not> (rd_next h n = Some n \<and> n \<noteq> s)"
    by (rule size_loop.raw_induct [rotated, where P = "\<lambda>h s n c r. \<not> (rd_next h n = Some n \<and> n \<noteq> s)"])
      (auto split: if_splits bind_splits)
  with assms show False by simp
qed

section \<open>The claims\<close>

lemmas rd_defs = rd_next_def rd_prev_def

lemma Intrusive_list_ring: "\<exists>h'. Intrusive_list h s = Some h' \<and> ring h' s []"
  by (simp add: Intrusive_list_def Intrusive_list_node_def wr_prev_def wr_next_def ring_def rd_defs)

lemma node_fields: "rd_prev h x = Some p \<Longrightarrow> rd_next h x = Some n \<Longrightarrow> h x = Some \<lparr>m_prev = p, m_next = n\<rparr>"
  by (cases "h x") (auto simp: rd_defs)

text \<open>
  Claim C1. Start from a valid ring and run any sequence of \<open>push_front\<close>,
  \<open>push_back\<close>, \<open>pop_front\<close>, \<open>pop_back\<close>, \<open>erase\<close> and \<open>swap\<close> calls, each
  with its precondition. Every call returns, and the final store holds a valid ring of the
  sentinel and the expected members: iteration visits exactly them, every ring node \<open>n\<close>
  has \<open>n.next.prev = n\<close> and \<open>n.prev.next = n\<close>, and following \<open>next\<close> from \<open>n\<close>
  comes back to \<open>n\<close> after \<open>size() + 1\<close> steps and not before.
\<close>

theorem ring_invariant:
  assumes "ring h s xs" and "pres h s xs cs"
  shows "\<exists>h' ys z. do_calls h s cs = Some h' \<and> ys = effects cs xs \<and> ring h' s ys
     \<and> order h' s = Some ys \<and> size_il h' s = Some z \<and> unat z = length ys
     \<and> (\<forall>n \<in> set (s # ys).
           rd_next h' n \<bind> rd_prev h' = Some n \<and> rd_prev h' n \<bind> rd_next h' = Some n
         \<and> advance h' (unat z + 1) n = Some n
         \<and> (\<forall>k. 0 < k \<and> k \<le> unat z \<longrightarrow> advance h' k n \<noteq> Some n))"
proof -
  from calls_ring [OF assms] obtain h' where
    h': "do_calls h s cs = Some h'" "ring h' s (effects cs xs)" by blast
  from ring_size_unat [OF h'(2)] obtain z where
    z: "size_il h' s = Some z" "unat z = length (effects cs xs)" by blast
  have "rd_next h' n \<bind> rd_prev h' = Some n \<and> rd_prev h' n \<bind> rd_next h' = Some n
         \<and> advance h' (unat z + 1) n = Some n
         \<and> (\<forall>k. 0 < k \<and> k \<le> unat z \<longrightarrow> advance h' k n \<noteq> Some n)"
    if "n \<in> set (s # effects cs xs)" for n
    using ring_links [OF h'(2) that] ring_cycle [OF h'(2) that] z(2)
    by (simp del: advance.simps)
  with h' z ring_order [OF h'(2)] show ?thesis by blast
qed

theorem ring_invariant_witness:
  "ring ex_three 1 [16, 32, 48]
   \<and> pres ex_three 1 [16, 32, 48]
        [Push_back 64, Swap 16 64, Erase 32, Pop_front, Pop_back, Push_front 32]
   \<and> effects [Push_back 64, Swap 16 64, Erase 32, Pop_front, Pop_back, Push_front 32]
        [16, 32, 48] = [32, 48 :: 64 word]
   \<and> (\<exists>h' ys z.
        do_calls ex_three 1
          [Push_back 64, Swap 16 64, Erase 32, Pop_front, Pop_back, Push_front 32] = Some h'
      \<and> ys = effects [Push_back 64, Swap 16 64, Erase 32, Pop_front, Pop_back, Push_front 32]
           [16, 32, 48]
      \<and> ring h' 1 ys \<and> order h' 1 = Some ys \<and> size_il h' 1 = Some z \<and> unat z = length ys
      \<and> (\<forall>n \<in> set (1 # ys).
           rd_next h' n \<bind> rd_prev h' = Some n \<and> rd_prev h' n \<bind> rd_next h' = Some n
         \<and> advance h' (unat z + 1) n = Some n
         \<and> (\<forall>k. 0 < k \<and> k \<le> unat z \<longrightarrow> advance h' k n \<noteq> Some n)))"
proof -
  have r: "ring ex_three 1 [16, 32, 48]"
    by (simp add: ring_def ex_three_def rd_defs)
  have p: "pres ex_three 1 [16, 32, 48]
        [Push_back 64, Swap 16 64, Erase 32, Pop_front, Pop_back, Push_front 32]"
    by (simp add: ex_three_def swap_list_def)
  have e: "effects [Push_back 64, Swap 16 64, Erase 32, Pop_front, Pop_back, Push_front 32]
        [16, 32, 48] = [32, 48 :: 64 word]"
    by (simp add: swap_list_def)
  from r p e ring_invariant [OF r p] show ?thesis by blast
qed

text \<open>
  The move constructor on any valid source list and any fresh address \<open>t\<close> for the new
  sentinel: it returns, the source becomes an empty ring, the new sentinel receives the
  source sentinel's links and no other node is written. The list at \<open>t\<close> is then never a
  ring, whatever members one expects of it.
\<close>

lemma move_result:
  assumes r: "ring h s xs" and t: "t \<notin> dom h"
  shows "\<exists>h'. Intrusive_list_move h t s = Some h' \<and> ring h' s []
     \<and> rd_prev h' t = rd_prev h s \<and> rd_next h' t = rd_next h s
     \<and> (\<forall>q. q \<noteq> s \<longrightarrow> q \<noteq> t \<longrightarrow> h' q = h q)"
proof -
  define h0 where "h0 = Intrusive_list_node h t"
  from ring_first [OF r] ring_last [OF r] obtain f l where
    f: "rd_next h s = Some f" and l: "rd_prev h s = Some l" by blast
  from ring_dom [OF r] have sd: "s \<in> dom h" by simp
  with t have st: "s \<noteq> t" by auto
  have d0: "s \<in> dom h0" "t \<in> dom h0"
    using sd by (simp_all add: h0_def Intrusive_list_node_def)
  have rd0: "rd_prev h0 s = Some l" "rd_next h0 s = Some f"
    using st f l by (simp_all add: h0_def Intrusive_list_node_def rd_defs)
  have out0: "h0 q = h q" if "q \<noteq> t" for q
    using that by (simp add: h0_def Intrusive_list_node_def)
  define h' where "h' = upd_next (upd_prev (upd_next (upd_prev h0 t l) t f) s s) s s"
  have mv: "Intrusive_list_move h t s = Some h'"
    using d0 rd0 by (simp add: Intrusive_list_move_def h0_def [symmetric] h'_def upd_simps)
  have "ring h' s []"
    using d0 by (simp add: ring_def h'_def upd_simps)
  moreover have "rd_prev h' t = rd_prev h s" "rd_next h' t = rd_next h s"
    using d0 st f l by (simp_all add: h'_def upd_simps)
  moreover have "h' q = h q" if "q \<noteq> s" "q \<noteq> t" for q
  proof -
    have "h' q = h0 q"
      by (rule node_eqI) (simp_all add: h'_def upd_simps d0 that)
    with out0 [OF that(2)] show ?thesis by simp
  qed
  ultimately show ?thesis using mv by blast
qed

lemma move_never_ring:
  assumes r: "ring h s xs" and t: "t \<notin> dom h"
    and mv: "Intrusive_list_move h t s = Some h'"
  shows "\<not> ring h' t ys"
proof
  assume r': "ring h' t ys"
  from move_result [OF r t] mv have s0: "ring h' s []"
    and tn: "rd_next h' t = rd_next h s"
    and out: "\<And>q. q \<noteq> s \<Longrightarrow> q \<noteq> t \<Longrightarrow> h' q = h q"
    by auto
  define f where "f = hd (xs @ [s])"
  from ring_first [OF r] have sf: "rd_next h s = Some f" by (simp add: f_def)
  from ring_first_prev [OF r] have fp: "rd_prev h f = Some s" by (simp add: f_def)
  from ring_dom [OF r] t have st: "s \<noteq> t" by auto
  from sf [THEN rd_next_dom] fp [THEN rd_prev_dom] t have ft: "f \<noteq> t" by auto
  from ring_first [OF r'] tn sf have "hd (ys @ [t]) = f" by simp
  with ring_first_prev [OF r'] have bad: "rd_prev h' f = Some t" by simp
  show False
  proof (cases "f = s")
    case True
    with s0 bad st show False by (simp add: ring_def)
  next
    case False
    from out [OF False ft] have "rd_prev h' f = rd_prev h f" by (simp add: rd_defs)
    with bad fp st show False by simp
  qed
qed

text \<open>
  Claim C2. The move constructor copies the source sentinel's \<open>m_prev\<close> and \<open>m_next\<close>
  into the new sentinel and resets the source to an empty ring, and that is all it
  writes: the first node's \<open>m_prev\<close> and the last node's \<open>m_next\<close> are not re-pointed.
  Moving the list \<open>[16]\<close> of \<open>ex_one\<close> (sentinel at 1) into a list whose sentinel is at 2
  gives \<open>ex_moved\<close>: the new sentinel points at node 16, node 16 still points at the old
  sentinel in both directions, the new list is no ring, and iterating it or taking its
  \<open>size()\<close> never reaches \<open>end()\<close>.
\<close>

theorem move_keeps_old_sentinel:
  "ring ex_one 1 [16]
   \<and> Intrusive_list_move ex_one 2 1 = Some ex_moved
   \<and> rd_prev ex_moved 2 = Some 16 \<and> rd_next ex_moved 2 = Some 16
   \<and> ring ex_moved 1 []
   \<and> rd_prev ex_moved 16 = Some 1 \<and> rd_next ex_moved 16 = Some 1
   \<and> \<not> ring ex_moved 2 [16]
   \<and> order ex_moved 2 = None \<and> size_il ex_moved 2 = None"
proof -
  have "\<exists>k. Intrusive_list_move ex_one 2 1 = Some k \<and> (\<forall>q. k q = ex_moved q)"
    by (simp add: Intrusive_list_move_def Intrusive_list_node_def ex_one_def ex_moved_def
        rd_defs wr_prev_def wr_next_def)
  then obtain k where "Intrusive_list_move ex_one 2 1 = Some k" and "\<forall>q. k q = ex_moved q"
    by blast
  then have mv: "Intrusive_list_move ex_one 2 1 = Some ex_moved" by (simp add: fun_eq_iff)
  have st: "rd_next ex_moved 1 = Some 1" by (simp add: ex_moved_def rd_defs)
  have "iterate ex_moved 1 2 = None"
    by (rule iterate_stuck [OF st]) simp
  then have o: "order ex_moved 2 = None"
    by (simp add: order_def begin_il_def end_il_def iterate.simps [of _ 16] ex_moved_def rd_defs)
  have "size_loop ex_moved 2 1 1 = None"
    by (rule size_loop_stuck [OF st]) simp
  then have sz: "size_il ex_moved 2 = None"
    by (simp add: size_il_def size_loop.simps [of _ _ 16] ex_moved_def rd_defs)
  have "ring ex_one 1 [16]" "ring ex_moved 1 []" "\<not> ring ex_moved 2 [16]"
    "rd_prev ex_moved 2 = Some 16" "rd_next ex_moved 2 = Some 16"
    "rd_prev ex_moved 16 = Some 1" "rd_next ex_moved 16 = Some 1"
    by (simp_all add: ring_def ex_one_def ex_moved_def rd_defs)
  with mv o sz show ?thesis by simp
qed

text \<open>
  Claim C3. On a valid ring \<open>erase(x)\<close> returns, and returns true exactly when \<open>x\<close> is
  a member. In that case the list is the ring of the other members in their order, \<open>x\<close>
  is no longer visited, both links of \<open>x\<close> are the sentinel's address, and the former
  predecessor and successor of \<open>x\<close> are linked to each other. Otherwise the store is
  unchanged.
\<close>

theorem erase_correct:
  assumes "ring h s xs"
  shows "\<exists>h' b. erase h s x = Some (h', b) \<and> (b \<longleftrightarrow> x \<in> set xs)
    \<and> (x \<in> set xs \<longrightarrow>
          ring h' s (remove1 x xs) \<and> order h' s = Some (remove1 x xs) \<and> x \<notin> set (remove1 x xs)
        \<and> rd_prev h' x = Some s \<and> rd_next h' x = Some s
        \<and> (\<exists>p n. rd_prev h x = Some p \<and> rd_next h x = Some n
               \<and> rd_next h' p = Some n \<and> rd_prev h' n = Some p))
    \<and> (x \<notin> set xs \<longrightarrow> h' = h)"
proof -
  from erase_ring [OF assms, of x] obtain h' where
    h': "erase h s x = Some (h', x \<in> set xs)" "ring h' s (remove1 x xs)"
    "x \<notin> set xs \<longrightarrow> h' = h"
    "x \<in> set xs \<longrightarrow> rd_next h' x = Some s \<and> rd_prev h' x = Some s
        \<and> (\<exists>p n. rd_prev h x = Some p \<and> rd_next h x = Some n \<and> p \<noteq> x \<and> n \<noteq> x
             \<and> rd_next h' p = Some n \<and> rd_prev h' n = Some p
             \<and> (\<forall>q. q \<noteq> x \<longrightarrow> q \<noteq> p \<longrightarrow> rd_next h' q = rd_next h q)
             \<and> (\<forall>q. q \<noteq> x \<longrightarrow> q \<noteq> n \<longrightarrow> rd_prev h' q = rd_prev h q))"
    by blast
  from assms have "distinct xs" by (simp add: ring_def)
  then have "x \<notin> set (remove1 x xs)" by simp
  moreover from h'(4) have "x \<in> set xs \<longrightarrow> rd_prev h' x = Some s \<and> rd_next h' x = Some s
        \<and> (\<exists>p n. rd_prev h x = Some p \<and> rd_next h x = Some n
               \<and> rd_next h' p = Some n \<and> rd_prev h' n = Some p)"
    by blast
  ultimately show ?thesis
    using h'(1-3) ring_order [OF h'(2)] by (intro exI [of _ h'] exI [of _ "x \<in> set xs"]) simp
qed

theorem erase_correct_witness:
  "ring ex_three 1 [16, 32, 48]
   \<and> (\<exists>h' b. erase ex_three 1 32 = Some (h', b) \<and> (b \<longleftrightarrow> 32 \<in> set [16, 32, 48 :: 64 word])
      \<and> (32 \<in> set [16, 32, 48 :: 64 word] \<longrightarrow>
            ring h' 1 (remove1 32 [16, 32, 48]) \<and> order h' 1 = Some (remove1 32 [16, 32, 48])
          \<and> 32 \<notin> set (remove1 32 [16, 32, 48 :: 64 word])
          \<and> rd_prev h' 32 = Some 1 \<and> rd_next h' 32 = Some 1
          \<and> (\<exists>p n. rd_prev ex_three 32 = Some p \<and> rd_next ex_three 32 = Some n
                 \<and> rd_next h' p = Some n \<and> rd_prev h' n = Some p))
      \<and> (32 \<notin> set [16, 32, 48 :: 64 word] \<longrightarrow> h' = ex_three))
   \<and> (\<exists>h' b. erase ex_three 1 64 = Some (h', b) \<and> (b \<longleftrightarrow> 64 \<in> set [16, 32, 48 :: 64 word])
      \<and> (64 \<in> set [16, 32, 48 :: 64 word] \<longrightarrow>
            ring h' 1 (remove1 64 [16, 32, 48]) \<and> order h' 1 = Some (remove1 64 [16, 32, 48])
          \<and> 64 \<notin> set (remove1 64 [16, 32, 48 :: 64 word])
          \<and> rd_prev h' 64 = Some 1 \<and> rd_next h' 64 = Some 1
          \<and> (\<exists>p n. rd_prev ex_three 64 = Some p \<and> rd_next ex_three 64 = Some n
                 \<and> rd_next h' p = Some n \<and> rd_prev h' n = Some p))
      \<and> (64 \<notin> set [16, 32, 48 :: 64 word] \<longrightarrow> h' = ex_three))
   \<and> 32 \<in> set [16, 32, 48 :: 64 word] \<and> 64 \<notin> set [16, 32, 48 :: 64 word]"
proof -
  have r: "ring ex_three 1 [16, 32, 48]"
    by (simp add: ring_def ex_three_def rd_defs)
  have m: "32 \<in> set [16, 32, 48 :: 64 word]" "64 \<notin> set [16, 32, 48 :: 64 word]"
    by simp_all
  from r m erase_correct [OF r, of 32] erase_correct [OF r, of 64] show ?thesis
    by (intro conjI) assumption+
qed

text \<open>
  Claim C4. From an empty list, \<open>push_back(A)\<close>, \<open>push_back(B)\<close>, \<open>push_back(C)\<close> give
  the order \<open>A, B, C\<close> and size 3; then \<open>swap(A, C)\<close> gives \<open>C, B, A\<close>; then
  \<open>erase(B)\<close> returns true and gives \<open>C, A\<close> and size 2; then \<open>pop_front()\<close> gives
  \<open>A\<close> and size 1. This holds for any three distinct live nodes and any sentinel.
\<close>

theorem scenario:
  assumes "ring h s []" and "distinct [s, A, B, C]"
    and "h A \<noteq> None" and "h B \<noteq> None" and "h C \<noteq> None"
  shows "\<exists>h1 h2 h3 h4 h5 h6.
      push_back h s A = Some h1 \<and> push_back h1 s B = Some h2 \<and> push_back h2 s C = Some h3
    \<and> order h3 s = Some [A, B, C] \<and> size_il h3 s = Some 3
    \<and> swap_il h3 A C = Some h4 \<and> order h4 s = Some [C, B, A]
    \<and> erase h4 s B = Some (h5, True) \<and> order h5 s = Some [C, A] \<and> size_il h5 s = Some 2
    \<and> pop_front h5 s = Some h6 \<and> order h6 s = Some [A] \<and> size_il h6 s = Some 1"
proof -
  from assms(3-5) have d: "A \<in> dom h" "B \<in> dom h" "C \<in> dom h" by (simp_all add: domIff)
  from assms(2) have n: "A \<notin> set [s]" "B \<notin> set (s # [] @ [A])" "C \<notin> set (s # ([] @ [A]) @ [B])"
    by auto
  from push_back_ring [OF assms(1) d(1)] n(1) obtain h1 where
    1: "push_back h s A = Some h1" "ring h1 s ([] @ [A])" "dom h1 = dom h" by auto
  from push_back_ring [OF 1(2) _ n(2)] d(2) 1(3) obtain h2 where
    2: "push_back h1 s B = Some h2" "ring h2 s (([] @ [A]) @ [B])" "dom h2 = dom h" by auto
  from push_back_ring [OF 2(2) _ n(3)] d(3) 2(3) obtain h3 where
    3: "push_back h2 s C = Some h3" "ring h3 s [A, B, C]" by auto
  from assms(2) have sw: "swap_list A C [A, B, C] = [C, B, A]" by (auto simp: swap_list_def)
  from swap_ring [OF 3(2), of A C] sw obtain h4 where
    4: "swap_il h3 A C = Some h4" "ring h4 s [C, B, A]" by auto
  from assms(2) have rm: "remove1 B [C, B, A] = [C, A]" by auto
  from erase_ring [OF 4(2), of B] rm obtain h5 where
    5: "erase h4 s B = Some (h5, True)" "ring h5 s [C, A]" by auto
  from pop_front_ring [OF 5(2)] obtain h6 where
    6: "pop_front h5 s = Some h6" "ring h6 s [A]" by blast
  have "size_il h3 s = Some 3" "size_il h5 s = Some 2" "size_il h6 s = Some 1"
    using ring_size [OF 3(2)] ring_size [OF 5(2)] ring_size [OF 6(2)] by simp_all
  with 1(1) 2(1) 3(1) 4(1) 5(1) 6(1)
    ring_order [OF 3(2)] ring_order [OF 4(2)] ring_order [OF 5(2)] ring_order [OF 6(2)]
  show ?thesis by blast
qed

theorem scenario_witness:
  "ring ex_fresh 1 [] \<and> distinct [1, 16, 32, 48 :: 64 word]
   \<and> ex_fresh 16 \<noteq> None \<and> ex_fresh 32 \<noteq> None \<and> ex_fresh 48 \<noteq> None
   \<and> (\<exists>h1 h2 h3 h4 h5 h6.
      push_back ex_fresh 1 16 = Some h1 \<and> push_back h1 1 32 = Some h2
    \<and> push_back h2 1 48 = Some h3
    \<and> order h3 1 = Some [16, 32, 48] \<and> size_il h3 1 = Some 3
    \<and> swap_il h3 16 48 = Some h4 \<and> order h4 1 = Some [48, 32, 16]
    \<and> erase h4 1 32 = Some (h5, True) \<and> order h5 1 = Some [48, 16] \<and> size_il h5 1 = Some 2
    \<and> pop_front h5 1 = Some h6 \<and> order h6 1 = Some [16] \<and> size_il h6 1 = Some 1)"
proof -
  have r: "ring ex_fresh 1 []"
    by (simp add: ring_def ex_fresh_def rd_defs)
  have d: "distinct [1, 16, 32, 48 :: 64 word]"
    by simp
  have a: "ex_fresh 16 \<noteq> None" "ex_fresh 32 \<noteq> None" "ex_fresh 48 \<noteq> None"
    by (simp_all add: ex_fresh_def)
  from r d a scenario [OF r d a] show ?thesis by (intro conjI) assumption+
qed

text \<open>
  Claim C5. For two distinct members \<open>a\<close> and \<open>b\<close> of a valid ring, \<open>swap(a, b)\<close>
  exchanges their places and a second \<open>swap(a, b)\<close> restores the original order,
  whether or not they are adjacent.
\<close>

theorem swap_twice:
  assumes "ring h s xs" and "a \<in> set xs" and "b \<in> set xs" and "a \<noteq> b"
  shows "\<exists>h1 h2. swap_il h a b = Some h1 \<and> order h1 s = Some (swap_list a b xs)
     \<and> swap_il h1 a b = Some h2 \<and> order h2 s = Some xs \<and> ring h2 s xs"
proof -
  from swap_ring [OF assms(1-3)] obtain h1 where
    1: "swap_il h a b = Some h1" "ring h1 s (swap_list a b xs)" by blast
  from assms(2,3) have "a \<in> set (swap_list a b xs)" "b \<in> set (swap_list a b xs)"
    by (simp_all add: set_swap_list)
  from swap_ring [OF 1(2) this] obtain h2 where
    2: "swap_il h1 a b = Some h2" "ring h2 s xs" by (auto simp: swap_list_twice)
  from 1 2 ring_order [OF 1(2)] ring_order [OF 2(2)] show ?thesis by blast
qed

theorem swap_twice_witness:
  "ring ex_three 1 [16, 32, 48]
   \<and> 16 \<in> set [16, 32, 48 :: 64 word] \<and> 32 \<in> set [16, 32, 48 :: 64 word]
   \<and> 48 \<in> set [16, 32, 48 :: 64 word] \<and> (16 :: 64 word) \<noteq> 32 \<and> (16 :: 64 word) \<noteq> 48
   \<and> swap_list 16 32 [16, 32, 48 :: 64 word] = [32, 16, 48]
   \<and> swap_list 16 48 [16, 32, 48 :: 64 word] = [48, 32, 16]
   \<and> (\<exists>h1 h2. swap_il ex_three 16 32 = Some h1
        \<and> order h1 1 = Some (swap_list 16 32 [16, 32, 48])
        \<and> swap_il h1 16 32 = Some h2 \<and> order h2 1 = Some [16, 32, 48]
        \<and> ring h2 1 [16, 32, 48])
   \<and> (\<exists>h1 h2. swap_il ex_three 16 48 = Some h1
        \<and> order h1 1 = Some (swap_list 16 48 [16, 32, 48])
        \<and> swap_il h1 16 48 = Some h2 \<and> order h2 1 = Some [16, 32, 48]
        \<and> ring h2 1 [16, 32, 48])"
proof -
  have r: "ring ex_three 1 [16, 32, 48]"
    by (simp add: ring_def ex_three_def rd_defs)
  have m: "16 \<in> set [16, 32, 48 :: 64 word]" "32 \<in> set [16, 32, 48 :: 64 word]"
    "48 \<in> set [16, 32, 48 :: 64 word]"
    by simp_all
  have n: "(16 :: 64 word) \<noteq> 32" "(16 :: 64 word) \<noteq> 48"
    by simp_all
  have l: "swap_list 16 32 [16, 32, 48 :: 64 word] = [32, 16, 48]"
    "swap_list 16 48 [16, 32, 48 :: 64 word] = [48, 32, 16]"
    by (simp_all add: swap_list_def)
  from r m n l swap_twice [OF r m(1) m(2) n(1)] swap_twice [OF r m(1) m(3) n(2)]
  show ?thesis by (intro conjI) assumption+
qed

text \<open>
  Claim C6. For a valid ring with any members (none included) and a live node \<open>x\<close>
  that is not linked in it, \<open>push_front(x)\<close> followed by \<open>pop_front()\<close> leaves the same
  members in the same order, and every node other than \<open>x\<close>, the sentinel included, has
  the links it had before.
\<close>

theorem push_pop_front_restores:
  assumes "ring h s xs" and "h x \<noteq> None" and "x \<notin> set (s # xs)"
  shows "\<exists>h1 h2. push_front h s x = Some h1 \<and> order h1 s = Some (x # xs)
     \<and> pop_front h1 s = Some h2 \<and> ring h2 s xs \<and> order h2 s = Some xs
     \<and> (\<forall>q. q \<noteq> x \<longrightarrow> h2 q = h q)"
proof -
  from assms(2) have xd: "x \<in> dom h" by (simp add: domIff)
  from push_front_ring [OF assms(1) xd assms(3)] obtain h1 where
    1: "push_front h s x = Some h1" "ring h1 s (x # xs)" by blast
  from push_pop_front [OF assms(1) xd assms(3)] 1(1) obtain h2 where
    2: "pop_front h1 s = Some h2" "ring h2 s xs" "\<forall>q. q \<noteq> x \<longrightarrow> h2 q = h q" by auto
  from 1 2 ring_order [OF 1(2)] ring_order [OF 2(2)] show ?thesis by blast
qed

theorem push_pop_front_restores_witness:
  "ring ex_three 1 [16, 32, 48] \<and> ex_three 64 \<noteq> None \<and> 64 \<notin> set [1, 16, 32, 48 :: 64 word]
   \<and> ring ex_fresh 1 [] \<and> ex_fresh 16 \<noteq> None \<and> 16 \<notin> set [1 :: 64 word]
   \<and> (\<exists>h1 h2. push_front ex_three 1 64 = Some h1 \<and> order h1 1 = Some [64, 16, 32, 48]
        \<and> pop_front h1 1 = Some h2 \<and> ring h2 1 [16, 32, 48] \<and> order h2 1 = Some [16, 32, 48]
        \<and> (\<forall>q. q \<noteq> 64 \<longrightarrow> h2 q = ex_three q))
   \<and> (\<exists>h1 h2. push_front ex_fresh 1 16 = Some h1 \<and> order h1 1 = Some [16]
        \<and> pop_front h1 1 = Some h2 \<and> ring h2 1 [] \<and> order h2 1 = Some []
        \<and> (\<forall>q. q \<noteq> 16 \<longrightarrow> h2 q = ex_fresh q))"
proof -
  have r: "ring ex_three 1 [16, 32, 48]"
    by (simp add: ring_def ex_three_def rd_defs)
  have a: "ex_three 64 \<noteq> None" "64 \<notin> set [1, 16, 32, 48 :: 64 word]"
    by (simp_all add: ex_three_def)
  have r': "ring ex_fresh 1 []"
    by (simp add: ring_def ex_fresh_def rd_defs)
  have a': "ex_fresh 16 \<noteq> None" "16 \<notin> set [1 :: 64 word]"
    by (simp_all add: ex_fresh_def)
  from r a r' a' push_pop_front_restores [OF r a] push_pop_front_restores [OF r' a']
  show ?thesis by (intro conjI) assumption+
qed

text \<open>
  Claim C7. On a valid ring \<open>empty()\<close> and \<open>size()\<close> both return, and \<open>empty()\<close> is
  true exactly when \<open>size()\<close> is 0. The counter of \<open>size()\<close> is a machine word; it
  cannot wrap to 0 on a non-empty list, because the members and the sentinel have
  distinct addresses of the same width.
\<close>

theorem empty_iff_size_zero:
  assumes "ring h s xs"
  shows "\<exists>e n. empty_il h s = Some e \<and> size_il h s = Some n \<and> (e \<longleftrightarrow> n = 0)"
proof -
  from ring_size_unat [OF assms] obtain n where
    n: "size_il h s = Some n" "unat n = length xs" by blast
  then have "(xs = []) = (n = 0)" by (auto simp: unat_eq_0 [symmetric] simp del: unat_eq_0)
  with ring_empty [OF assms] n(1) show ?thesis by simp
qed

theorem empty_iff_size_zero_witness:
  "ring ex_three 1 [16, 32, 48] \<and> ring ex_fresh 1 []
   \<and> (\<exists>e n. empty_il ex_three 1 = Some e \<and> size_il ex_three 1 = Some n \<and> (e \<longleftrightarrow> n = 0))
   \<and> (\<exists>e n. empty_il ex_fresh 1 = Some e \<and> size_il ex_fresh 1 = Some n \<and> (e \<longleftrightarrow> n = 0))"
proof -
  have r: "ring ex_three 1 [16, 32, 48]"
    by (simp add: ring_def ex_three_def rd_defs)
  have r': "ring ex_fresh 1 []"
    by (simp add: ring_def ex_fresh_def rd_defs)
  from r r' empty_iff_size_zero [OF r] empty_iff_size_zero [OF r'] show ?thesis by blast
qed

text \<open>
  Claim C8, as amended. \<open>pop_front\<close> and \<open>pop_back\<close> on an empty list do not corrupt the
  sentinel: each returns, and afterwards the list is still a valid empty ring for which
  \<open>empty()\<close> is true.
\<close>

theorem pop_empty_keeps_ring:
  assumes "ring h s []"
  shows "(\<exists>h'. pop_front h s = Some h' \<and> ring h' s [] \<and> empty_il h' s = Some True)
       \<and> (\<exists>h'. pop_back h s = Some h' \<and> ring h' s [] \<and> empty_il h' s = Some True)"
  using assms pop_front_empty [OF assms] pop_back_empty [OF assms] ring_empty [OF assms]
  by simp

theorem pop_empty_keeps_ring_witness:
  "ring ex_fresh 1 []
   \<and> (\<exists>h'. pop_front ex_fresh 1 = Some h' \<and> ring h' 1 [] \<and> empty_il h' 1 = Some True)
   \<and> (\<exists>h'. pop_back ex_fresh 1 = Some h' \<and> ring h' 1 [] \<and> empty_il h' 1 = Some True)"
proof -
  have r: "ring ex_fresh 1 []"
    by (simp add: ring_def ex_fresh_def rd_defs)
  from r pop_empty_keeps_ring [OF r] show ?thesis by blast
qed

text \<open>
  The claim as stated, that such a call leaves a list that is no valid empty ring, fails on
  the empty list whose sentinel is at address 1: both calls return the store they were
  given.
\<close>

theorem pop_empty_corrupts_counterexample:
  "ring [1 \<mapsto> \<lparr>m_prev = 1, m_next = 1\<rparr>] (1 :: 64 word) []
   \<and> pop_front [1 \<mapsto> \<lparr>m_prev = 1, m_next = 1\<rparr>] (1 :: 64 word)
       = Some [1 \<mapsto> \<lparr>m_prev = 1, m_next = 1\<rparr>]
   \<and> pop_back [1 \<mapsto> \<lparr>m_prev = 1, m_next = 1\<rparr>] (1 :: 64 word)
       = Some [1 \<mapsto> \<lparr>m_prev = 1, m_next = 1\<rparr>]"
proof -
  have r: "ring [1 \<mapsto> \<lparr>m_prev = 1, m_next = 1\<rparr>] (1 :: 64 word) []"
    by (simp add: ring_def rd_defs)
  from r pop_front_empty [OF r] pop_back_empty [OF r] show ?thesis by simp
qed

text \<open>
  Claim C9, as amended. In a store where the null address holds no node, \<open>erase\<close> of a
  member resets both links of the removed node to the address of the list's sentinel,
  which is neither the node's own address nor null.
\<close>

theorem erase_resets_to_sentinel:
  assumes "ring h s xs" and "x \<in> set xs" and "h nullptr = None"
  shows "\<exists>h'. erase h s x = Some (h', True) \<and> h' x = Some \<lparr>m_prev = s, m_next = s\<rparr>
     \<and> s \<noteq> x \<and> s \<noteq> nullptr"
proof -
  from erase_ring [OF assms(1), of x] assms(2) obtain h' where
    "erase h s x = Some (h', True)" "rd_next h' x = Some s" "rd_prev h' x = Some s"
    by auto
  moreover from assms(1,2) have "s \<noteq> x" by (auto simp: ring_def)
  moreover from ring_dom [OF assms(1)] have "s \<in> dom h" by simp
  with assms(3) have "s \<noteq> nullptr" by auto
  ultimately show ?thesis by (auto dest: node_fields)
qed

theorem erase_resets_to_sentinel_witness:
  "ring ex_three 1 [16, 32, 48] \<and> 32 \<in> set [16, 32, 48 :: 64 word] \<and> ex_three nullptr = None
   \<and> (\<exists>h'. erase ex_three 1 32 = Some (h', True) \<and> h' 32 = Some \<lparr>m_prev = 1, m_next = 1\<rparr>
        \<and> (1 :: 64 word) \<noteq> 32 \<and> (1 :: 64 word) \<noteq> nullptr)"
proof -
  have r: "ring ex_three 1 [16, 32, 48]"
    by (simp add: ring_def ex_three_def rd_defs)
  have m: "32 \<in> set [16, 32, 48 :: 64 word]"
    by simp
  have z: "ex_three nullptr = None"
    by (simp add: ex_three_def nullptr_def)
  from r m z erase_resets_to_sentinel [OF r m z] show ?thesis by blast
qed

text \<open>
  The claim as stated, that the links become self-referential or null, fails on the list
  \<open>[16]\<close> with its sentinel at address 1: after \<open>erase(16)\<close> both links of node 16 are 1,
  which is neither 16 nor null.
\<close>

theorem erase_resets_counterexample:
  "erase [1 \<mapsto> \<lparr>m_prev = 16, m_next = 16\<rparr>, 16 \<mapsto> \<lparr>m_prev = 1, m_next = 1\<rparr>] (1 :: 64 word) 16
     = Some ([1 \<mapsto> \<lparr>m_prev = 1, m_next = 1\<rparr>, 16 \<mapsto> \<lparr>m_prev = 1, m_next = 1\<rparr>], True)
   \<and> (1 :: 64 word) \<noteq> 16 \<and> (1 :: 64 word) \<noteq> nullptr"
proof -
  let ?h = "[1 \<mapsto> \<lparr>m_prev = 16, m_next = 16\<rparr>, 16 \<mapsto> \<lparr>m_prev = 1, m_next = 1\<rparr>] :: 64 store"
  let ?h' = "[1 \<mapsto> \<lparr>m_prev = 1, m_next = 1\<rparr>, 16 \<mapsto> \<lparr>m_prev = 1, m_next = 1\<rparr>] :: 64 store"
  have "\<exists>k. erase ?h 1 16 = Some (k, True) \<and> (\<forall>q. k q = ?h' q)"
    by (simp add: erase_def empty_il_def erase_loop.simps unlink_def rd_defs wr_prev_def
        wr_next_def)
  then obtain k where "erase ?h 1 16 = Some (k, True)" and "\<forall>q. k q = ?h' q" by blast
  then have "erase ?h 1 16 = Some (?h', True)" by (simp add: fun_eq_iff)
  then show ?thesis by (simp add: nullptr_def)
qed

text \<open>
  Claim C10. On an empty list (the sentinel linked to itself in both directions)
  \<open>pop_front\<close> and \<open>pop_back\<close> return and leave the whole store as it was.
\<close>

theorem pop_empty_unchanged:
  assumes "rd_next h s = Some s" and "rd_prev h s = Some s"
  shows "pop_front h s = Some h \<and> pop_back h s = Some h"
proof -
  from assms have "ring h s []" by (simp add: ring_def)
  then show ?thesis by (simp add: pop_front_empty pop_back_empty)
qed

theorem pop_empty_unchanged_witness:
  "rd_next ex_fresh 1 = Some 1 \<and> rd_prev ex_fresh 1 = Some 1
   \<and> pop_front ex_fresh 1 = Some ex_fresh \<and> pop_back ex_fresh 1 = Some ex_fresh"
proof -
  have n: "rd_next ex_fresh 1 = Some 1" and p: "rd_prev ex_fresh 1 = Some 1"
    by (simp_all add: ex_fresh_def rd_defs)
  from n p pop_empty_unchanged [OF n p] show ?thesis by simp
qed

end
